theory Spec2Isabelle
  imports Main
begin

section \<open>Python strings\<close>

text \<open>
  The parser of \<^verbatim>\<open>spec/upstream/parsePolyglot.py\<close> works on Python 3 \<^verbatim>\<open>str\<close> values.
  They are modelled as HOL strings; a character stands for the code point of the same
  number, so the strings of the model are the \<^verbatim>\<open>str\<close> values over the code points below
  256, and the character classes below are the Python ones on these code points.
\<close>

abbreviation SP :: char where "SP \<equiv> CHR 0x20"
abbreviation NL :: char where "NL \<equiv> CHR 0x0A"
abbreviation CR :: char where "CR \<equiv> CHR 0x0D"

text \<open>
  \<^verbatim>\<open>str.isspace\<close>, also the class \<^verbatim>\<open>\s\<close> of \<^verbatim>\<open>re\<close> on a \<^verbatim>\<open>str\<close>: tab, LF, VT, FF, CR, FS, GS,
  RS, US, space, NEL (133) and the no-break space (160).
\<close>

definition isspace :: "char \<Rightarrow> bool" where
  "isspace c = (let n = (of_char c :: nat) in
     (9 \<le> n \<and> n \<le> 13) \<or> (28 \<le> n \<and> n \<le> 32) \<or> n = 133 \<or> n = 160)"

text \<open>
  The class \<^verbatim>\<open>[\w\.]\<close> on a \<^verbatim>\<open>str\<close>: the dot, the underscore, and what is alphanumeric in
  Unicode: digits, letters, and above 127 the ordinal indicators (170, 186), the
  superscript digits (178, 179, 185), the micro sign (181), the fractions (188 to 190)
  and the letters from 192 on, without the signs 215 and 247.
\<close>

definition keychar :: "char \<Rightarrow> bool" where
  "keychar c = (let n = (of_char c :: nat) in
     n = 46 \<or> (48 \<le> n \<and> n \<le> 57) \<or> (65 \<le> n \<and> n \<le> 90) \<or> n = 95 \<or> (97 \<le> n \<and> n \<le> 122)
     \<or> n = 170 \<or> n = 178 \<or> n = 179 \<or> n = 181 \<or> n = 185 \<or> n = 186
     \<or> (188 \<le> n \<and> n \<le> 190) \<or> (192 \<le> n \<and> n \<le> 214) \<or> (216 \<le> n \<and> n \<le> 246)
     \<or> 248 \<le> n)"

definition lstrip :: "string \<Rightarrow> string" where
  "lstrip s = dropWhile isspace s"

definition rstrip :: "string \<Rightarrow> string" where
  "rstrip s = rev (dropWhile isspace (rev s))"

definition strip :: "string \<Rightarrow> string" where
  "strip s = lstrip (rstrip s)"

text \<open>The line boundaries of \<^verbatim>\<open>str.splitlines\<close>: LF, CR, CR LF, VT, FF, FS, GS, RS and NEL.\<close>

definition linebreak :: "char \<Rightarrow> bool" where
  "linebreak c = (let n = (of_char c :: nat) in
     (10 \<le> n \<and> n \<le> 13) \<or> (28 \<le> n \<and> n \<le> 30) \<or> n = 133)"

text \<open>\<^verbatim>\<open>source.splitlines(True)\<close>: every line keeps its terminator; \<open>cur\<close> is the line being read.\<close>

fun splitlines_from :: "string \<Rightarrow> string \<Rightarrow> string list" where
  "splitlines_from cur [] = (if cur = [] then [] else [cur])"
| "splitlines_from cur [c] = [cur @ [c]]"
| "splitlines_from cur (c # d # cs) =
     (if c = CR \<and> d = NL then (cur @ [c, d]) # splitlines_from [] cs
      else if linebreak c then (cur @ [c]) # splitlines_from [] (d # cs)
      else splitlines_from (cur @ [c]) (d # cs))"

definition splitlines :: "string \<Rightarrow> string list" where
  "splitlines s = splitlines_from [] s"

section \<open>The two regular expressions\<close>

text \<open>
  \<^verbatim>\<open>commentLineRegex = re.compile(r'^\s*#')\<close>, used with \<^verbatim>\<open>match\<close>: after leading white space
  the next character is a hash.
\<close>

definition commentLineRegex :: "string \<Rightarrow> bool" where
  "commentLineRegex s = (case dropWhile isspace s of [] \<Rightarrow> False | c # cs \<Rightarrow> c = CHR ''#'')"

text \<open>
  \<^verbatim>\<open>yamlLineRegex\<close> is compiled with \<^verbatim>\<open>re.VERBOSE\<close> and without \<^verbatim>\<open>re.MULTILINE\<close>; with the
  layout white space removed it reads

  \<^verbatim>\<open>^(?P<indent> *)((?P<itemMarker>- +)(?P<itemContent>.*)$|^((?P<key>[\w\.]+)(?P<keyExtra>: *))?(?P<content>.*))\s*$\<close>

  The groups of a match are the fields of \<open>parsedLine\<close>; a group that took no part in the
  match is \<open>None\<close>.
\<close>

record parsedLine =
  grp_indent :: string
  grp_itemMarker :: "string option"
  grp_itemContent :: "string option"
  grp_key :: "string option"
  grp_keyExtra :: "string option"
  grp_content :: "string option"

text \<open>
  First alternative, \<^verbatim>\<open>(- +)(.*)$\<close>, tried where the leading spaces end (after fewer
  spaces the next character is a space, not a dash). The marker is the dash and every
  space after it, the item content runs to the first LF or to the end, and \<^verbatim>\<open>$\<close>
  asks for the end of the string or for its last character, an LF. Giving back spaces of
  the marker or characters of the content never reaches such a position if the greedy
  match did not, so a failure here is a failure of the alternative.
\<close>

definition item_alt :: "string \<Rightarrow> (string \<times> string) option" where
  "item_alt r =
     (case r of
        [] \<Rightarrow> None
      | c # r1 \<Rightarrow>
          if c = CHR ''-'' \<and> takeWhile (\<lambda>x. x = SP) r1 \<noteq> [] then
            (let after = dropWhile (\<lambda>x. x = SP) r1;
                 rest = dropWhile (\<lambda>x. x \<noteq> NL) after in
             if rest = [] \<or> rest = [NL]
             then Some (c # takeWhile (\<lambda>x. x = SP) r1, takeWhile (\<lambda>x. x \<noteq> NL) after)
             else None)
          else None)"

text \<open>
  Second alternative, \<^verbatim>\<open>^(([\w\.]+)(: *))?(.*)\<close> followed by \<^verbatim>\<open>\s*$\<close>. Its own \<^verbatim>\<open>^\<close>
  only holds at position 0, so it is tried on the whole line, with the group
  \<^verbatim>\<open>indent\<close> empty. The key is the longest run of key characters, and it is a key only
  when a colon follows it. The content runs to the first LF or to the end; what is left
  must be white space, with or without the key.
\<close>

definition content_alt :: "string \<Rightarrow> parsedLine option" where
  "content_alt s =
     (if \<forall>c \<in> set (dropWhile (\<lambda>x. x \<noteq> NL) s). isspace c then
        (let k = takeWhile keychar s; r = dropWhile keychar s in
         if k \<noteq> [] \<and> r \<noteq> [] \<and> hd r = CHR '':''
         then Some \<lparr>grp_indent = [], grp_itemMarker = None, grp_itemContent = None,
                    grp_key = Some k,
                    grp_keyExtra = Some (CHR '':'' # takeWhile (\<lambda>x. x = SP) (tl r)),
                    grp_content = Some (takeWhile (\<lambda>x. x \<noteq> NL) (dropWhile (\<lambda>x. x = SP) (tl r)))\<rparr>
         else Some \<lparr>grp_indent = [], grp_itemMarker = None, grp_itemContent = None,
                    grp_key = None, grp_keyExtra = None,
                    grp_content = Some (takeWhile (\<lambda>x. x \<noteq> NL) s)\<rparr>)
      else None)"

definition yamlLineRegex :: "string \<Rightarrow> parsedLine option" where
  "yamlLineRegex s =
     (case item_alt (dropWhile (\<lambda>x. x = SP) s) of
        Some (m, c) \<Rightarrow>
          Some \<lparr>grp_indent = takeWhile (\<lambda>x. x = SP) s, grp_itemMarker = Some m,
                grp_itemContent = Some c, grp_key = None, grp_keyExtra = None,
                grp_content = None\<rparr>
      | None \<Rightarrow> content_alt s)"

text \<open>Python's \<^verbatim>\<open>x or y\<close> on a group: a missing or empty group gives \<open>y\<close>.\<close>

definition group_or :: "string option \<Rightarrow> string \<Rightarrow> string" where
  "group_or g d = (case g of None \<Rightarrow> d | Some s \<Rightarrow> if s = [] then d else s)"

section \<open>Values and errors\<close>

text \<open>
  What \<^verbatim>\<open>parseYAML\<close> returns: \<^verbatim>\<open>None\<close>, a \<^verbatim>\<open>list\<close>, a \<^verbatim>\<open>dict\<close> (in insertion order) or
  a \<^verbatim>\<open>yamlValue\<close>, the \<^verbatim>\<open>str\<close> subclass that carries \<^verbatim>\<open>linenumber\<close>.
\<close>

datatype yaml =
    PyNone
  | PyList "yaml list"
  | PyDict "(string \<times> yaml) list"
  | YamlValue string nat

datatype pyclass = Class_list | Class_dict | Class_yamlValue | Class_NoneType | Class_type

fun class_of :: "yaml \<Rightarrow> pyclass" where
  "class_of PyNone = Class_NoneType"
| "class_of (PyList xs) = Class_list"
| "class_of (PyDict kvs) = Class_dict"
| "class_of (YamlValue s n) = Class_yamlValue"

text \<open>\<^verbatim>\<open>c.__class__\<close> for a class \<open>c\<close>: every class is an instance of \<^verbatim>\<open>type\<close>.\<close>

definition class_of_class :: "pyclass \<Rightarrow> pyclass" where
  "class_of_class c = Class_type"

fun class_name :: "pyclass \<Rightarrow> string" where
  "class_name Class_list = ''list''"
| "class_name Class_dict = ''dict''"
| "class_name Class_yamlValue = ''yamlValue''"
| "class_name Class_NoneType = ''NoneType''"
| "class_name Class_type = ''type''"

definition isinstance :: "yaml \<Rightarrow> pyclass \<Rightarrow> bool" where
  "isinstance v c = (class_of v = c)"

text \<open>
  Both failures of the parser are a plain \<^verbatim>\<open>Exception\<close> with a formatted message; the
  constructors keep the arguments of \<^verbatim>\<open>format\<close>, in order. The last two are what
  \<^verbatim>\<open>send\<close> raises on a generator that has not started or has finished.
\<close>

datatype error =
    Unparseable nat string
  | BadYAML string string nat string
  | SendBeforeStart
  | SendAfterEnd

text \<open>\<^verbatim>\<open>expectYAML\<close>: \<open>None\<close> when the check passes, the exception otherwise.\<close>

definition expectYAML :: "yaml \<Rightarrow> nat \<Rightarrow> string \<Rightarrow> pyclass \<Rightarrow> error option" where
  "expectYAML returnItem linenumber line expected =
     (if \<not> isinstance returnItem expected
      then Some (BadYAML (class_name (class_of_class expected))
                         (class_name (class_of returnItem))
                         linenumber (rstrip line))
      else None)"

section \<open>The line source\<close>

text \<open>
  \<^verbatim>\<open>parseYAML_generator\<close> is a generator that the parser both iterates and sends to. Its
  state between two resumptions is the program point and its local variables:
  \<open>gen_rest\<close> and \<open>gen_count\<close> are the input lines \<^verbatim>\<open>enumerate\<close> has not produced yet
  and its counter. The generator is suspended at one of the three \<^verbatim>\<open>yield\<close>s, which
  all resume at the test \<^verbatim>\<open>while backline\<close>, so one program point stands for them.
\<close>

datatype pc = Start | Suspended | Done

record gen =
  gen_pc :: pc
  gen_rest :: "string list"
  gen_count :: nat
  gen_linenumber :: nat
  gen_line :: string
  gen_usedLine :: bool
  gen_backlines :: "(nat \<times> string) list"

text \<open>
  The head of the \<^verbatim>\<open>for\<close> loop followed by the first round of the \<^verbatim>\<open>while\<close> loop, whose
  condition holds because \<open>usedLine\<close> has just been set to \<^verbatim>\<open>False\<close>.
\<close>

definition for_next :: "gen \<Rightarrow> (nat \<times> string) option \<times> gen" where
  "for_next g =
     (case gen_rest g of
        [] \<Rightarrow> (None, g\<lparr>gen_pc := Done\<rparr>)
      | l # ls \<Rightarrow>
          (let g1 = g\<lparr>gen_rest := ls, gen_linenumber := gen_count g,
                      gen_count := gen_count g + 1, gen_line := l, gen_usedLine := False\<rparr> in
           if gen_backlines g1 \<noteq> []
           then (Some (last (gen_backlines g1)),
                 g1\<lparr>gen_backlines := butlast (gen_backlines g1), gen_pc := Suspended\<rparr>)
           else (Some (gen_linenumber g1 + 1, gen_line g1),
                 g1\<lparr>gen_usedLine := True, gen_pc := Suspended\<rparr>)))"

text \<open>
  Resuming with \<^verbatim>\<open>None\<close>: \<^verbatim>\<open>while backline\<close> is skipped; then
  \<^verbatim>\<open>while usedLine is False or backlines\<close> either pops a pushed-back line, or yields the
  current line, or is left for the next round of the \<^verbatim>\<open>for\<close> loop.
\<close>

definition resume_none :: "gen \<Rightarrow> (nat \<times> string) option \<times> gen" where
  "resume_none g =
     (if \<not> gen_usedLine g \<or> gen_backlines g \<noteq> [] then
        (if gen_backlines g \<noteq> []
         then (Some (last (gen_backlines g)), g\<lparr>gen_backlines := butlast (gen_backlines g)\<rparr>)
         else (Some (gen_linenumber g + 1, gen_line g), g\<lparr>gen_usedLine := True\<rparr>))
      else for_next g)"

text \<open>\<^verbatim>\<open>next(source)\<close>, as the \<^verbatim>\<open>for\<close> loop of the parser calls it; \<open>None\<close> is \<^verbatim>\<open>StopIteration\<close>.\<close>

definition gen_next :: "gen \<Rightarrow> (nat \<times> string) option \<times> gen" where
  "gen_next g =
     (case gen_pc g of
        Start \<Rightarrow> for_next (g\<lparr>gen_backlines := [], gen_count := 0\<rparr>)
      | Suspended \<Rightarrow> resume_none g
      | Done \<Rightarrow> (None, g))"

text \<open>
  \<^verbatim>\<open>source.send(backline)\<close> with a pair, which is true: the pair is appended to
  \<open>backlines\<close> and \<^verbatim>\<open>yield None\<close> answers the call.
\<close>

definition gen_send :: "gen \<Rightarrow> nat \<times> string \<Rightarrow> error + gen" where
  "gen_send g backline =
     (case gen_pc g of
        Start \<Rightarrow> Inl SendBeforeStart
      | Suspended \<Rightarrow> Inr (g\<lparr>gen_backlines := gen_backlines g @ [backline]\<rparr>)
      | Done \<Rightarrow> Inl SendAfterEnd)"

text \<open>
  The argument of \<^verbatim>\<open>parseYAML\<close>: a string, or an iterable of lines. For a string the
  generator asks \<^verbatim>\<open>os.path.isfile\<close>; the file system is the parameter \<open>fs\<close>, which gives
  the lines of every existing file.
\<close>

datatype pysource = Str string | Lines "string list"

definition parseYAML_generator :: "(string \<Rightarrow> string list option) \<Rightarrow> pysource \<Rightarrow> gen" where
  "parseYAML_generator fs source =
     \<lparr>gen_pc = Start,
      gen_rest = (case source of
                    Str s \<Rightarrow> (case fs s of Some ls \<Rightarrow> ls | None \<Rightarrow> splitlines s)
                  | Lines ls \<Rightarrow> ls),
      gen_count = 0, gen_linenumber = 0, gen_line = [], gen_usedLine = True,
      gen_backlines = []\<rparr>"

section \<open>The parser\<close>

text \<open>
  An item or key line either opens the block (no value yet: the fresh list or dict, and
  the indent of this line becomes the indent of the block) or must agree with it.
\<close>

definition begin_block ::
  "yaml \<Rightarrow> pyclass \<Rightarrow> yaml \<Rightarrow> nat \<Rightarrow> string \<Rightarrow> nat \<Rightarrow> nat \<Rightarrow> error + yaml \<times> nat" where
  "begin_block fresh expected returnItem linenumber line lineIndent indent =
     (if returnItem = PyNone then Inr (fresh, lineIndent)
      else (case expectYAML returnItem linenumber line expected of
              Some e \<Rightarrow> Inl e
            | None \<Rightarrow> Inr (returnItem, indent)))"

text \<open>\<^verbatim>\<open>returnItem.append(v)\<close> and \<^verbatim>\<open>returnItem[k] = v\<close>, reached with a list and a dict only.\<close>

fun list_append :: "yaml \<Rightarrow> yaml \<Rightarrow> yaml" where
  "list_append (PyList xs) v = PyList (xs @ [v])"
| "list_append r v = r"

fun dict_update :: "string \<Rightarrow> yaml \<Rightarrow> (string \<times> yaml) list \<Rightarrow> (string \<times> yaml) list" where
  "dict_update k v [] = [(k, v)]"
| "dict_update k v (p # ps) = (if fst p = k then (k, v) # ps else p # dict_update k v ps)"

fun dict_setitem :: "yaml \<Rightarrow> string \<Rightarrow> yaml \<Rightarrow> yaml" where
  "dict_setitem (PyDict kvs) k v = PyDict (dict_update k v kvs)"
| "dict_setitem r k v = r"

text \<open>The last statement of the loop body: the text so far is true (not empty) or not.\<close>

fun add_text :: "yaml \<Rightarrow> nat \<Rightarrow> string \<Rightarrow> yaml" where
  "add_text (YamlValue t n) linenumber lineContent =
     (if t \<noteq> [] then YamlValue (t @ NL # lineContent) n
      else YamlValue lineContent linenumber)"
| "add_text r linenumber lineContent = r"

definition multiline_marker :: "string \<Rightarrow> bool" where
  "multiline_marker s = (s = ''|'' \<or> s = ''|-'' \<or> s = ''>'')"

text \<open>The branch for data lines, from \<^verbatim>\<open>if returnItem is None\<close> to the end of the body.\<close>

definition data_line :: "yaml \<Rightarrow> nat \<Rightarrow> string \<Rightarrow> string \<Rightarrow> error + yaml" where
  "data_line returnItem linenumber line lineContent =
     (if returnItem = PyNone then
        (if multiline_marker (strip lineContent) then Inr (YamlValue [] linenumber)
         else Inr (add_text (YamlValue [] linenumber) linenumber lineContent))
      else (case expectYAML returnItem linenumber line Class_yamlValue of
              Some e \<Rightarrow> Inl e
            | None \<Rightarrow> Inr (add_text returnItem linenumber lineContent)))"

text \<open>
  The body of \<^verbatim>\<open>parseYAML_inner\<close> is one \<^verbatim>\<open>for\<close> loop over the generator; its state is the
  generator and the two locals it assigns, \<open>indent\<close> and \<open>returnItem\<close>. A round of the
  loop is one unfolding of \<open>parseYAML_loop\<close>: \<^verbatim>\<open>continue\<close> is the recursive call on the new
  state, \<^verbatim>\<open>return\<close> gives the value and the generator back, \<^verbatim>\<open>raise\<close> is \<open>Inl\<close>.
\<close>

function parseYAML_loop :: "gen \<Rightarrow> nat \<Rightarrow> yaml \<Rightarrow> error + yaml \<times> gen" where
  "parseYAML_loop source indent returnItem =
     (case gen_next source of
        (None, source1) \<Rightarrow> Inr (returnItem, source1)
      | (Some (linenumber, line), source1) \<Rightarrow>
          if strip line = [] \<or> commentLineRegex line
          then parseYAML_loop source1 indent returnItem
          else
            (case yamlLineRegex line of
               None \<Rightarrow> Inl (Unparseable linenumber (rstrip line))
             | Some parsedLine \<Rightarrow>
                 (let lineIndent = length (grp_indent parsedLine);
                      lineItemMarker = group_or (grp_itemMarker parsedLine) [];
                      lineKey = group_or (grp_key parsedLine) [];
                      lineKeyExtra = group_or (grp_keyExtra parsedLine) [];
                      lineContent = strip (group_or (grp_content parsedLine)
                                            (group_or (grp_itemContent parsedLine) []))
                  in
                  if lineIndent < indent then
                    (case gen_send source1 (linenumber, line) of
                       Inl e \<Rightarrow> Inl e
                     | Inr source2 \<Rightarrow> Inr (returnItem, source2))
                  else if lineItemMarker \<noteq> [] then
                    (case begin_block (PyList []) Class_list returnItem linenumber line
                            lineIndent indent of
                       Inl e \<Rightarrow> Inl e
                     | Inr (returnItem1, indent1) \<Rightarrow>
                         (case gen_send source1
                                 (linenumber,
                                  replicate (lineIndent + length lineItemMarker) SP @ lineContent) of
                            Inl e \<Rightarrow> Inl e
                          | Inr source2 \<Rightarrow>
                              (case parseYAML_loop source2 (indent1 + 1) PyNone of
                                 Inl e \<Rightarrow> Inl e
                               | Inr (child, source3) \<Rightarrow>
                                   parseYAML_loop source3 indent1 (list_append returnItem1 child))))
                  else if lineKey \<noteq> [] then
                    (case begin_block (PyDict []) Class_dict returnItem linenumber line
                            lineIndent indent of
                       Inl e \<Rightarrow> Inl e
                     | Inr (returnItem1, indent1) \<Rightarrow>
                         (case gen_send source1
                                 (linenumber,
                                  replicate (lineIndent + length lineKey + length lineKeyExtra) SP
                                    @ lineContent) of
                            Inl e \<Rightarrow> Inl e
                          | Inr source2 \<Rightarrow>
                              (case parseYAML_loop source2 (indent1 + 1) PyNone of
                                 Inl e \<Rightarrow> Inl e
                               | Inr (child, source3) \<Rightarrow>
                                   parseYAML_loop source3 indent1
                                     (dict_setitem returnItem1 lineKey child))))
                  else
                    (case data_line returnItem linenumber line lineContent of
                       Inl e \<Rightarrow> Inl e
                     | Inr returnItem1 \<Rightarrow> parseYAML_loop source1 indent returnItem1))))"
  by pat_completeness auto

definition parseYAML_inner :: "gen \<Rightarrow> nat \<Rightarrow> error + yaml \<times> gen" where
  "parseYAML_inner source indent = parseYAML_loop source indent PyNone"

definition parseYAML :: "(string \<Rightarrow> string list option) \<Rightarrow> pysource \<Rightarrow> error + yaml" where
  "parseYAML fs source =
     (case parseYAML_inner (parseYAML_generator fs source) 0 of
        Inl e \<Rightarrow> Inl e
      | Inr (v, g) \<Rightarrow> Inr v)"

text \<open>A file system without files: every string is parsed as text.\<close>

definition no_files :: "string \<Rightarrow> string list option" where
  "no_files path = None"


section \<open>What the line source holds\<close>

text \<open>
  The pushed-back lines in the order \<^verbatim>\<open>next\<close> will return them, and the lines of the input
  that \<^verbatim>\<open>next\<close> has not returned yet, with the numbers they will carry. A generator that
  has not started has no \<open>backlines\<close> yet.
\<close>

definition queue :: "gen \<Rightarrow> (nat \<times> string) list" where
  "queue g = (case gen_pc g of Suspended \<Rightarrow> rev (gen_backlines g) | _ \<Rightarrow> [])"

definition pending :: "gen \<Rightarrow> (nat \<times> string) list" where
  "pending g =
     (case gen_pc g of
        Start \<Rightarrow> enumerate 1 (gen_rest g)
      | Suspended \<Rightarrow>
          (if gen_usedLine g then [] else [(gen_linenumber g + 1, gen_line g)])
          @ enumerate (gen_count g + 1) (gen_rest g)
      | Done \<Rightarrow> [])"

text \<open>Several calls of \<^verbatim>\<open>send\<close> in a row, and several calls of \<^verbatim>\<open>next\<close> in a row.\<close>

fun gen_sends :: "gen \<Rightarrow> (nat \<times> string) list \<Rightarrow> error + gen" where
  "gen_sends g [] = Inr g"
| "gen_sends g (b # bs) = (case gen_send g b of Inl e \<Rightarrow> Inl e | Inr g' \<Rightarrow> gen_sends g' bs)"

fun gen_nexts :: "nat \<Rightarrow> gen \<Rightarrow> (nat \<times> string) option list \<times> gen" where
  "gen_nexts 0 g = ([], g)"
| "gen_nexts (Suc k) g =
     (case gen_next g of (x, g') \<Rightarrow> (case gen_nexts k g' of (xs, g'') \<Rightarrow> (x # xs, g'')))"

text \<open>
  Two states of a generator that has returned its first line: one holds a pushed-back
  line, the other does not.
\<close>

definition gen_with_pushback :: gen where
  "gen_with_pushback =
     \<lparr>gen_pc = Suspended, gen_rest = [''b''], gen_count = 1, gen_linenumber = 0,
      gen_line = ''a: 1'', gen_usedLine = True, gen_backlines = [(1, ''   1'')]\<rparr>"

definition gen_without_pushback :: gen where
  "gen_without_pushback =
     \<lparr>gen_pc = Suspended, gen_rest = [''b''], gen_count = 1, gen_linenumber = 0,
      gen_line = ''a: 1'', gen_usedLine = True, gen_backlines = []\<rparr>"

section \<open>Lines as the parser sees them\<close>

text \<open>The lines the loop drops at once: empty after \<^verbatim>\<open>strip\<close>, or a comment.\<close>

definition ignorable :: "string \<Rightarrow> bool" where
  "ignorable l = (strip l = [] \<or> commentLineRegex l)"

text \<open>
  The class a matched line asks of the block, by the order of the tests in the loop:
  \<^verbatim>\<open>list\<close> with an item marker, \<^verbatim>\<open>dict\<close> with a key, \<^verbatim>\<open>yamlValue\<close> otherwise.
\<close>

definition line_class :: "parsedLine \<Rightarrow> pyclass" where
  "line_class p =
     (if group_or (grp_itemMarker p) [] \<noteq> [] then Class_list
      else if group_or (grp_key p) [] \<noteq> [] then Class_dict
      else Class_yamlValue)"

text \<open>\<open>lineContent\<close> as the loop computes it.\<close>

definition lineContent_of :: "parsedLine \<Rightarrow> string" where
  "lineContent_of p = strip (group_or (grp_content p) (group_or (grp_itemContent p) []))"

text \<open>A data line and its \<open>lineContent\<close>: not dropped, matched, without marker and key.\<close>

definition data_payload :: "string \<Rightarrow> string option" where
  "data_payload l =
     (if ignorable l then None
      else (case yamlLineRegex l of
              None \<Rightarrow> None
            | Some p \<Rightarrow> if line_class p = Class_yamlValue then Some (lineContent_of p) else None))"

text \<open>\<^verbatim>\<open>"\n".join(ps)\<close>\<close>

fun join_lines :: "string list \<Rightarrow> string" where
  "join_lines [] = []"
| "join_lines [p] = p"
| "join_lines (p # q # ps) = p @ NL # join_lines (q # ps)"

text \<open>The generator after \<^verbatim>\<open>next\<close> has returned the line \<open>b\<close>, and the match of that line.\<close>

definition gen_after_b :: gen where
  "gen_after_b =
     \<lparr>gen_pc = Suspended, gen_rest = [], gen_count = 2, gen_linenumber = 1,
      gen_line = ''b'', gen_usedLine = True, gen_backlines = []\<rparr>"

definition match_b :: parsedLine where
  "match_b =
     \<lparr>grp_indent = [], grp_itemMarker = None, grp_itemContent = None,
      grp_key = None, grp_keyExtra = None, grp_content = Some ''b''\<rparr>"

text \<open>The generator for the lines \<open>|\<close> and \<open>foo\<close> after \<^verbatim>\<open>next\<close> has returned the first.\<close>

definition gen_after_marker :: gen where
  "gen_after_marker =
     \<lparr>gen_pc = Suspended, gen_rest = [''foo\<newline>''], gen_count = 1, gen_linenumber = 0,
      gen_line = ''|\<newline>'', gen_usedLine = True, gen_backlines = []\<rparr>"

text \<open>A line that makes an entry of a list or of a dict: an item line or a key line.\<close>

definition entry_line :: "string \<Rightarrow> bool" where
  "entry_line l =
     (if ignorable l then False
      else (case yamlLineRegex l of
              None \<Rightarrow> False
            | Some p \<Rightarrow> line_class p = Class_list \<or> line_class p = Class_dict))"

section \<open>Results up to line numbers\<close>

text \<open>
  A value and an exception with every line number set to 0: what is left when the
  \<open>linenumber\<close> of the scalars and the line number of the message are not looked at.
\<close>

primrec forget_lines :: "yaml \<Rightarrow> yaml" where
  "forget_lines PyNone = PyNone"
| "forget_lines (PyList xs) = PyList (map forget_lines xs)"
| "forget_lines (PyDict kvs) = PyDict (map (map_prod id forget_lines) kvs)"
| "forget_lines (YamlValue t n) = YamlValue t 0"

fun forget_error :: "error \<Rightarrow> error" where
  "forget_error (Unparseable n l) = Unparseable 0 l"
| "forget_error (BadYAML a b n l) = BadYAML a b 0 l"
| "forget_error e = e"

definition forget_result :: "error + yaml \<Rightarrow> error + yaml" where
  "forget_result x = (case x of Inl e \<Rightarrow> Inl (forget_error e) | Inr v \<Rightarrow> Inr (forget_lines v))"

text \<open>
  Two generators hold the same lines when the texts pushed back are the same and the
  inputs left differ only in lines that the loop drops.
\<close>

definition same_lines :: "gen \<Rightarrow> gen \<Rightarrow> bool" where
  "same_lines g1 g2 =
     (map snd (queue g1) = map snd (queue g2)
      \<and> filter (\<lambda>l. \<not> ignorable l) (map snd (pending g1))
        = filter (\<lambda>l. \<not> ignorable l) (map snd (pending g2)))"

text \<open>Two runs of the loop end alike.\<close>

definition same_outcome :: "error + yaml \<times> gen \<Rightarrow> error + yaml \<times> gen \<Rightarrow> bool" where
  "same_outcome x y =
     (case x of
        Inl e1 \<Rightarrow> (case y of Inl e2 \<Rightarrow> forget_error e1 = forget_error e2 | Inr b \<Rightarrow> False)
      | Inr a \<Rightarrow>
          (case y of
             Inl e2 \<Rightarrow> False
           | Inr b \<Rightarrow> forget_lines (fst a) = forget_lines (fst b) \<and> same_lines (snd a) (snd b)))"

section \<open>Termination of the parser\<close>

text \<open>
  Every round of the loop takes a line from the generator. A round for an item or a key
  gives a line back, but one with fewer characters other than spaces: the dash or the
  key and its colon are gone. So the lines the generator still holds, counted with their
  non-space characters, decrease.
\<close>

definition nonspace :: "string \<Rightarrow> nat" where
  "nonspace s = length (filter (\<lambda>c. c \<noteq> SP) s)"

definition line_weight :: "string \<Rightarrow> nat" where
  "line_weight l = Suc (nonspace l)"

definition gen_weight :: "gen \<Rightarrow> nat" where
  "gen_weight g =
     sum_list (map (\<lambda>b. line_weight (snd b)) (gen_backlines g))
     + (if gen_usedLine g then 0 else line_weight (gen_line g))
     + sum_list (map line_weight (gen_rest g))"

lemma nonspace_dropWhile: "nonspace (dropWhile P s) \<le> nonspace s"
  unfolding nonspace_def by (induction s) auto

lemma nonspace_takeWhile: "nonspace (takeWhile P s) \<le> nonspace s"
  unfolding nonspace_def by (induction s) auto

lemma nonspace_rev: "nonspace (rev s) = nonspace s"
  unfolding nonspace_def by (simp flip: rev_filter)

lemma nonspace_strip: "nonspace (strip s) \<le> nonspace s"
proof -
  have "nonspace (strip s) \<le> nonspace (rstrip s)"
    unfolding strip_def lstrip_def by (rule nonspace_dropWhile)
  also have "\<dots> = nonspace (dropWhile isspace (rev s))"
    unfolding rstrip_def by (rule nonspace_rev)
  also have "\<dots> \<le> nonspace (rev s)" by (rule nonspace_dropWhile)
  finally show ?thesis by (simp add: nonspace_rev)
qed

lemma nonspace_replicate: "nonspace (replicate k SP @ s) = nonspace s"
  unfolding nonspace_def by simp

lemma nonspace_Cons: "nonspace (c # s) = (if c = SP then 0 else 1) + nonspace s"
  unfolding nonspace_def by simp

lemma nonspace_Nil: "nonspace [] = 0"
  unfolding nonspace_def by simp

lemma group_or_None: "group_or None d = d"
  by (simp add: group_or_def)

lemma nonspace_group_or: "nonspace (strip (group_or (Some c) [])) \<le> nonspace c"
  using nonspace_strip [of c]
  by (simp add: group_or_def strip_def lstrip_def rstrip_def nonspace_Nil)

lemma item_alt_content:
  assumes "item_alt r = Some (m, c)"
  shows "m \<noteq> [] \<and> Suc (nonspace c) \<le> nonspace r"
proof (cases r)
  case Nil
  with assms show ?thesis by (simp add: item_alt_def)
next
  case (Cons d r1)
  with assms have d: "d = CHR ''-''"
    and c: "c = takeWhile (\<lambda>x. x \<noteq> NL) (dropWhile (\<lambda>x. x = SP) r1)"
    and m: "m = d # takeWhile (\<lambda>x. x = SP) r1"
    by (auto simp: item_alt_def Let_def split: if_splits)
  have "nonspace c \<le> nonspace (dropWhile (\<lambda>x. x = SP) r1)"
    unfolding c by (rule nonspace_takeWhile)
  also have "\<dots> \<le> nonspace r1" by (rule nonspace_dropWhile)
  finally show ?thesis using d m Cons by (simp add: nonspace_Cons)
qed

text \<open>The text pushed back for an item or a key line is lighter than the line.\<close>

lemma pushed_lighter:
  assumes "yamlLineRegex l = Some p"
    and "group_or (grp_itemMarker p) [] \<noteq> [] \<or> group_or (grp_key p) [] \<noteq> []"
  shows "line_weight (replicate k SP @ strip (group_or (grp_content p) (group_or (grp_itemContent p) [])))
         < line_weight l"
proof (cases "item_alt (dropWhile (\<lambda>x. x = SP) l)")
  case (Some mc)
  obtain m c where mc: "mc = (m, c)" by (cases mc)
  from Some mc assms(1) have p: "grp_content p = None" "grp_itemContent p = Some c"
    by (auto simp: yamlLineRegex_def)
  have "nonspace (strip (group_or (Some c) [])) \<le> nonspace c"
    by (rule nonspace_group_or)
  moreover have "Suc (nonspace c) \<le> nonspace (dropWhile (\<lambda>x. x = SP) l)"
    using item_alt_content Some mc by simp
  moreover have "nonspace (dropWhile (\<lambda>x. x = SP) l) \<le> nonspace l"
    by (rule nonspace_dropWhile)
  ultimately show ?thesis
    by (simp add: p line_weight_def nonspace_replicate group_or_None)
next
  case None
  with assms(1) have ca: "content_alt l = Some p" by (simp add: yamlLineRegex_def)
  define r where "r = dropWhile keychar l"
  from ca assms(2) have k: "r \<noteq> []" "hd r = CHR '':''"
    and c: "grp_content p = Some (takeWhile (\<lambda>x. x \<noteq> NL) (dropWhile (\<lambda>x. x = SP) (tl r)))"
    unfolding r_def
    by (auto simp: content_alt_def Let_def group_or_def split: if_splits)
  define c0 where "c0 = takeWhile (\<lambda>x. x \<noteq> NL) (dropWhile (\<lambda>x. x = SP) (tl r))"
  have "nonspace c0 \<le> nonspace (dropWhile (\<lambda>x. x = SP) (tl r))"
    unfolding c0_def by (rule nonspace_takeWhile)
  also have "\<dots> \<le> nonspace (tl r)" by (rule nonspace_dropWhile)
  finally have 1: "nonspace c0 \<le> nonspace (tl r)" .
  from k have "r = CHR '':'' # tl r" by (cases r) auto
  then have "nonspace r = Suc (nonspace (tl r))"
    using nonspace_Cons [of "CHR '':''" "tl r"] by simp
  moreover have "nonspace r \<le> nonspace l" unfolding r_def by (rule nonspace_dropWhile)
  ultimately have 2: "Suc (nonspace c0) \<le> nonspace l" using 1 by simp
  have ic: "grp_itemContent p = None"
    using ca by (auto simp: content_alt_def Let_def split: if_splits)
  have "nonspace (strip (group_or (Some c0) [])) \<le> nonspace c0"
    by (rule nonspace_group_or)
  with 2 show ?thesis
    by (simp add: line_weight_def nonspace_replicate c c0_def ic group_or_None)
qed

lemma gen_next_weight:
  assumes "gen_next g = (Some (n, l), g')"
  shows "gen_weight g' + line_weight l \<le> gen_weight g"
proof -
  have last_w: "sum_list (map (\<lambda>b. line_weight (snd b)) (butlast bs)) + line_weight (snd (last bs))
                = sum_list (map (\<lambda>b. line_weight (snd b)) bs)" if "bs \<noteq> []" for bs :: "(nat \<times> string) list"
    using that by (induction bs rule: rev_induct) auto
  show ?thesis
    using assms last_w [of "gen_backlines g"]
    by (auto simp: gen_next_def resume_none_def for_next_def gen_weight_def Let_def
             split: pc.splits list.splits if_splits)
qed

lemma gen_next_pc:
  assumes "gen_next g = (Some x, g')"
  shows "gen_pc g' = Suspended"
  using assms
  by (auto simp: gen_next_def resume_none_def for_next_def Let_def
           split: pc.splits list.splits if_splits)

lemma gen_next_None_weight:
  assumes "gen_next g = (None, g')"
  shows "gen_weight g' \<le> gen_weight g"
  using assms
  by (auto simp: gen_next_def resume_none_def for_next_def gen_weight_def Let_def
           split: pc.splits list.splits if_splits)

lemma gen_send_weight:
  assumes "gen_send g (n, l) = Inr g'"
  shows "gen_weight g' = gen_weight g + line_weight l"
  using assms
  by (auto simp: gen_send_def gen_weight_def split: pc.splits)

lemma parseYAML_loop_weight:
  assumes "parseYAML_loop_dom (g, i, r)" and "parseYAML_loop g i r = Inr (v, g')"
  shows "gen_weight g' \<le> gen_weight g"
  using assms
proof (induction g i r arbitrary: v g' rule: parseYAML_loop.pinduct)
  case (1 source indent returnItem)
  note eq = parseYAML_loop.psimps [OF "1.hyps"]
  note res = "1.prems"
  obtain x g1 where nx: "gen_next source = (x, g1)" by (cases "gen_next source")
  show ?case
  proof (cases x)
    case None
    with nx res eq have "g' = g1" by simp
    with gen_next_None_weight nx None show ?thesis by simp
  next
    case (Some nl)
    obtain n l where nl: "nl = (n, l)" by (cases nl)
    have w1: "gen_weight g1 + line_weight l \<le> gen_weight source"
      using gen_next_weight nx Some nl by simp
    show ?thesis
    proof (cases "strip l = [] \<or> commentLineRegex l")
      case True
      with res eq nx Some nl have "parseYAML_loop g1 indent returnItem = Inr (v, g')" by simp
      from "1.IH"(1) [OF nx [symmetric] Some nl [symmetric] True this] w1
      show ?thesis by simp
    next
      case False
      show ?thesis
      proof (cases "yamlLineRegex l")
        case None
        with res eq nx Some nl False show ?thesis by simp
      next
        case p: (Some p)
        define lineContent where
          "lineContent = strip (group_or (grp_content p) (group_or (grp_itemContent p) []))"
        show ?thesis
        proof (cases "length (grp_indent p) < indent")
          case True
          with res eq nx Some nl False p
          have "gen_send g1 (n, l) = Inr g'"
            by (simp add: Let_def split: sum.splits)
          from gen_send_weight [OF this] w1 show ?thesis by simp
        next
          case ge: False
          show ?thesis
          proof (cases "group_or (grp_itemMarker p) [] \<noteq> []")
            case True
            from res eq nx Some nl False p ge True
            obtain r1 i1 g2 c g3 where
              b: "begin_block (PyList []) Class_list returnItem n l (length (grp_indent p)) indent
                  = Inr (r1, i1)"
              and s: "gen_send g1 (n, replicate (length (grp_indent p)
                         + length (group_or (grp_itemMarker p) [])) SP @ lineContent) = Inr g2"
              and c: "parseYAML_loop g2 (i1 + 1) PyNone = Inr (c, g3)"
              and k: "parseYAML_loop g3 i1 (list_append r1 c) = Inr (v, g')"
              by (simp add: Let_def lineContent_def split: sum.splits prod.splits)
            have "gen_weight g3 \<le> gen_weight g2"
              by (rule "1.IH"(2) [OF nx [symmetric] Some nl [symmetric] False p refl refl refl refl
                    refl ge True b refl s [unfolded lineContent_def] c])
            moreover have "gen_weight g' \<le> gen_weight g3"
              by (rule "1.IH"(3) [OF nx [symmetric] Some nl [symmetric] False p refl refl refl refl
                    refl ge True b refl s [unfolded lineContent_def] c refl k])
            moreover have "gen_weight g2 < gen_weight g1 + line_weight l"
              using gen_send_weight [OF s] pushed_lighter [OF p] True
              by (simp add: lineContent_def)
            ultimately show ?thesis using w1 by simp
          next
            case nomarker: False
            show ?thesis
            proof (cases "group_or (grp_key p) [] \<noteq> []")
              case True
              from res eq nx Some nl False p ge nomarker True
              obtain r1 i1 g2 c g3 where
                b: "begin_block (PyDict []) Class_dict returnItem n l (length (grp_indent p)) indent
                    = Inr (r1, i1)"
                and s: "gen_send g1 (n, replicate (length (grp_indent p)
                           + length (group_or (grp_key p) [])
                           + length (group_or (grp_keyExtra p) [])) SP @ lineContent) = Inr g2"
                and c: "parseYAML_loop g2 (i1 + 1) PyNone = Inr (c, g3)"
                and k: "parseYAML_loop g3 i1 (dict_setitem r1 (group_or (grp_key p) []) c)
                        = Inr (v, g')"
                by (simp add: Let_def lineContent_def split: sum.splits prod.splits)
              have "gen_weight g3 \<le> gen_weight g2"
                by (rule "1.IH"(4) [OF nx [symmetric] Some nl [symmetric] False p refl refl refl
                      refl refl ge nomarker True b refl s [unfolded lineContent_def] c])
              moreover have "gen_weight g' \<le> gen_weight g3"
                by (rule "1.IH"(5) [OF nx [symmetric] Some nl [symmetric] False p refl refl refl
                      refl refl ge nomarker True b refl s [unfolded lineContent_def] c refl k])
              moreover have "gen_weight g2 < gen_weight g1 + line_weight l"
                using gen_send_weight [OF s] pushed_lighter [OF p] True
                by (simp add: lineContent_def)
              ultimately show ?thesis using w1 by simp
            next
              case nokey: False
              from res eq nx Some nl False p ge nomarker nokey
              obtain r1 where
                d: "data_line returnItem n l lineContent = Inr r1"
                and k: "parseYAML_loop g1 indent r1 = Inr (v, g')"
                by (simp add: Let_def lineContent_def split: sum.splits)
              have "gen_weight g' \<le> gen_weight g1"
                by (rule "1.IH"(6) [OF nx [symmetric] Some nl [symmetric] False p refl refl refl
                      refl refl ge nomarker nokey d [unfolded lineContent_def] k])
              with w1 show ?thesis by simp
            qed
          qed
        qed
      qed
    qed
  qed
qed

termination parseYAML_loop
proof (relation "measure (\<lambda>(g, i, r). gen_weight g)", goal_cases)
  case 1
  show ?case by simp
next
  case (2 source indent returnItem x y x2 xa ya)
  then show ?case using gen_next_weight [of source xa ya y]
    by (simp add: line_weight_def)
next
  case (3 source indent returnItem x y x2 xa ya x2a xb xc xd xe xf b xg yaa ba)
  then show ?case
    using gen_next_weight [of source xa ya y] gen_send_weight [of y xa _ ba]
      pushed_lighter [of ya x2a "xb + length xc"]
    by simp
next
  case (4 source indent returnItem x y x2 xa ya x2a xb xc xd xe xf b xg yaa ba bb xh yb)
  then show ?case
    using gen_next_weight [of source xa ya y] gen_send_weight [of y xa _ ba]
      pushed_lighter [of ya x2a "xb + length xc"]
      parseYAML_loop_weight [of ba "yaa + 1" PyNone xh yb]
    by simp
next
  case (5 source indent returnItem x y x2 xa ya x2a xb xc xd xe xf b xg yaa ba)
  then show ?case
    using gen_next_weight [of source xa ya y] gen_send_weight [of y xa _ ba]
      pushed_lighter [of ya x2a "xb + length xd + length xe"]
    by simp
next
  case (6 source indent returnItem x y x2 xa ya x2a xb xc xd xe xf b xg yaa ba bb xh yb)
  then show ?case
    using gen_next_weight [of source xa ya y] gen_send_weight [of y xa _ ba]
      pushed_lighter [of ya x2a "xb + length xd + length xe"]
      parseYAML_loop_weight [of ba "yaa + 1" PyNone xh yb]
    by simp
next
  case (7 source indent returnItem x y x2 xa ya x2a xb xc xd xe xf b)
  then show ?case using gen_next_weight [of source xa ya y]
    by (simp add: line_weight_def)
qed

section \<open>The line source is a stack in front of the input\<close>

lemma next_from_queue:
  assumes "queue g = x # xs"
  shows "\<exists>g'. gen_next g = (Some x, g') \<and> queue g' = xs \<and> pending g' = pending g"
proof -
  from assms have pc: "gen_pc g = Suspended" and bl: "rev (gen_backlines g) = x # xs"
    by (auto simp: queue_def split: pc.splits)
  from bl have ne: "gen_backlines g \<noteq> []" and l: "last (gen_backlines g) = x"
    and b: "rev (butlast (gen_backlines g)) = xs"
    by (auto simp: rev_eq_Cons_iff)
  show ?thesis using pc ne l b
    by (simp add: gen_next_def resume_none_def queue_def pending_def)
qed

lemma next_from_input:
  assumes "queue g = []" and "pending g = x # xs"
  shows "\<exists>g'. gen_next g = (Some x, g') \<and> queue g' = [] \<and> pending g' = xs"
  using assms
  by (cases "gen_pc g"; cases "gen_rest g")
     (auto simp: gen_next_def resume_none_def for_next_def queue_def pending_def Let_def
           split: if_splits)

lemma next_stops_iff:
  "fst (gen_next g) = None \<longleftrightarrow> queue g = [] \<and> pending g = []"
  by (cases "gen_pc g"; cases "gen_rest g")
     (auto simp: gen_next_def resume_none_def for_next_def queue_def pending_def Let_def
           split: if_splits)

lemma send_pushes:
  assumes "gen_pc g = Suspended"
  shows "\<exists>g'. gen_send g b = Inr g' \<and> queue g' = b # queue g \<and> pending g' = pending g
           \<and> gen_pc g' = Suspended"
  using assms by (simp add: gen_send_def queue_def pending_def)

lemma sends_push:
  assumes "gen_pc g = Suspended"
  shows "\<exists>g'. gen_sends g bs = Inr g' \<and> queue g' = rev bs @ queue g \<and> pending g' = pending g"
  using assms
proof (induction bs arbitrary: g)
  case Nil
  then show ?case by simp
next
  case (Cons b bs)
  from send_pushes [OF Cons.prems, of b] obtain g1 where
    1: "gen_send g b = Inr g1" "queue g1 = b # queue g" "pending g1 = pending g"
       "gen_pc g1 = Suspended" by blast
  from Cons.IH [OF 1(4)] 1 show ?case by auto
qed

lemma nexts_drain:
  assumes "queue g = xs @ ys"
  shows "\<exists>g'. gen_nexts (length xs) g = (map Some xs, g') \<and> queue g' = ys \<and> pending g' = pending g"
  using assms
proof (induction xs arbitrary: g)
  case Nil
  then show ?case by simp
next
  case (Cons x xs)
  from next_from_queue [of g x "xs @ ys"] Cons.prems obtain g1 where
    1: "gen_next g = (Some x, g1)" "queue g1 = xs @ ys" "pending g1 = pending g" by auto
  from Cons.IH [OF 1(2)] 1 show ?case by auto
qed

section \<open>One round of the loop\<close>

text \<open>
  The equation of \<open>parseYAML_loop\<close> unfolds for ever, so it is used through one lemma for
  each way a round can go.
\<close>

declare parseYAML_loop.simps [simp del]

lemma loop_stop:
  assumes "gen_next g = (None, g1)"
  shows "parseYAML_loop g i r = Inr (r, g1)"
  using assms by (simp add: parseYAML_loop.simps)

lemma loop_skip:
  assumes "gen_next g = (Some (n, l), g1)" and "ignorable l"
  shows "parseYAML_loop g i r = parseYAML_loop g1 i r"
  using assms by (subst parseYAML_loop.simps) (simp add: ignorable_def)

lemma loop_unparseable:
  assumes "gen_next g = (Some (n, l), g1)" and "\<not> ignorable l" and "yamlLineRegex l = None"
  shows "parseYAML_loop g i r = Inl (Unparseable n (rstrip l))"
  using assms by (subst parseYAML_loop.simps) (simp add: ignorable_def)

lemma loop_outdent:
  assumes "gen_next g = (Some (n, l), g1)" and "\<not> ignorable l" and "yamlLineRegex l = Some p"
    and "length (grp_indent p) < i"
  shows "parseYAML_loop g i r =
           (case gen_send g1 (n, l) of Inl e \<Rightarrow> Inl e | Inr g2 \<Rightarrow> Inr (r, g2))"
  using assms by (subst parseYAML_loop.simps) (simp add: ignorable_def)

lemma loop_item:
  assumes "gen_next g = (Some (n, l), g1)" and "\<not> ignorable l" and "yamlLineRegex l = Some p"
    and "\<not> length (grp_indent p) < i" and "line_class p = Class_list"
  shows "parseYAML_loop g i r =
           (case begin_block (PyList []) Class_list r n l (length (grp_indent p)) i of
              Inl e \<Rightarrow> Inl e
            | Inr (r1, i1) \<Rightarrow>
                (case gen_send g1 (n, replicate (length (grp_indent p)
                         + length (group_or (grp_itemMarker p) [])) SP @ lineContent_of p) of
                   Inl e \<Rightarrow> Inl e
                 | Inr g2 \<Rightarrow>
                     (case parseYAML_loop g2 (i1 + 1) PyNone of
                        Inl e \<Rightarrow> Inl e
                      | Inr (child, g3) \<Rightarrow> parseYAML_loop g3 i1 (list_append r1 child))))"
  using assms unfolding lineContent_of_def line_class_def ignorable_def
  by (subst parseYAML_loop.simps) (simp add: Let_def split: if_splits)

lemma loop_key:
  assumes "gen_next g = (Some (n, l), g1)" and "\<not> ignorable l" and "yamlLineRegex l = Some p"
    and "\<not> length (grp_indent p) < i" and "line_class p = Class_dict"
  shows "parseYAML_loop g i r =
           (case begin_block (PyDict []) Class_dict r n l (length (grp_indent p)) i of
              Inl e \<Rightarrow> Inl e
            | Inr (r1, i1) \<Rightarrow>
                (case gen_send g1 (n, replicate (length (grp_indent p)
                         + length (group_or (grp_key p) [])
                         + length (group_or (grp_keyExtra p) [])) SP @ lineContent_of p) of
                   Inl e \<Rightarrow> Inl e
                 | Inr g2 \<Rightarrow>
                     (case parseYAML_loop g2 (i1 + 1) PyNone of
                        Inl e \<Rightarrow> Inl e
                      | Inr (child, g3) \<Rightarrow>
                          parseYAML_loop g3 i1 (dict_setitem r1 (group_or (grp_key p) []) child))))"
  using assms unfolding lineContent_of_def line_class_def ignorable_def
  by (subst parseYAML_loop.simps) (simp add: Let_def split: if_splits)

lemma loop_data:
  assumes "gen_next g = (Some (n, l), g1)" and "\<not> ignorable l" and "yamlLineRegex l = Some p"
    and "\<not> length (grp_indent p) < i" and "line_class p = Class_yamlValue"
  shows "parseYAML_loop g i r =
           (case data_line r n l (lineContent_of p) of
              Inl e \<Rightarrow> Inl e
            | Inr r1 \<Rightarrow> parseYAML_loop g1 i r1)"
  using assms unfolding lineContent_of_def line_class_def ignorable_def
  by (subst parseYAML_loop.simps) (simp add: Let_def split: if_splits)

lemma line_class_cases:
  obtains "line_class p = Class_list" | "line_class p = Class_dict" | "line_class p = Class_yamlValue"
  unfolding line_class_def by (cases "group_or (grp_itemMarker p) [] \<noteq> []";
      cases "group_or (grp_key p) [] \<noteq> []") simp_all

lemma loop_round_cases [case_names stop skip unparseable outdent item key data]:
  obtains g1 where "gen_next g = (None, g1)"
  | n l g1 where "gen_next g = (Some (n, l), g1)" "ignorable l"
  | n l g1 where "gen_next g = (Some (n, l), g1)" "\<not> ignorable l" "yamlLineRegex l = None"
  | n l g1 p where "gen_next g = (Some (n, l), g1)" "\<not> ignorable l" "yamlLineRegex l = Some p"
      "length (grp_indent p) < i"
  | n l g1 p where "gen_next g = (Some (n, l), g1)" "\<not> ignorable l" "yamlLineRegex l = Some p"
      "\<not> length (grp_indent p) < i" "line_class p = Class_list"
  | n l g1 p where "gen_next g = (Some (n, l), g1)" "\<not> ignorable l" "yamlLineRegex l = Some p"
      "\<not> length (grp_indent p) < i" "line_class p = Class_dict"
  | n l g1 p where "gen_next g = (Some (n, l), g1)" "\<not> ignorable l" "yamlLineRegex l = Some p"
      "\<not> length (grp_indent p) < i" "line_class p = Class_yamlValue"
proof -
  obtain x g1 where nx: "gen_next g = (x, g1)" by (cases "gen_next g")
  show thesis
  proof (cases x)
    case None
    with nx that(1) show thesis by simp
  next
    case (Some nl)
    obtain n l where "nl = (n, l)" by (cases nl)
    with nx Some have nx': "gen_next g = (Some (n, l), g1)" by simp
    show thesis
    proof (cases "ignorable l")
      case True
      with nx' that(2) show thesis by blast
    next
      case False
      show thesis
      proof (cases "yamlLineRegex l")
        case None
        with nx' False that(3) show thesis by blast
      next
        case p: (Some p)
        show thesis
        proof (cases "length (grp_indent p) < i")
          case True
          with nx' False p that(4) show thesis by blast
        next
          case ge: False
          show thesis
            by (cases p rule: line_class_cases) (use nx' False p ge that(5,6,7) in blast)+
        qed
      qed
    qed
  qed
qed

lemma pushed_lighter_class:
  assumes "yamlLineRegex l = Some p" and "line_class p \<noteq> Class_yamlValue"
  shows "line_weight (replicate k SP @ lineContent_of p) < line_weight l"
proof -
  from assms(2) have "group_or (grp_itemMarker p) [] \<noteq> [] \<or> group_or (grp_key p) [] \<noteq> []"
    by (auto simp: line_class_def split: if_splits)
  from pushed_lighter [OF assms(1) this] show ?thesis by (simp add: lineContent_of_def)
qed

text \<open>The generator a run of the loop gives back holds no more than the one it was given.\<close>

lemma parseYAML_loop_lighter:
  assumes "parseYAML_loop g i r = Inr (v, g')"
  shows "gen_weight g' \<le> gen_weight g"
  using assms
proof (induction "gen_weight g" arbitrary: g i r v g' rule: less_induct)
  case less
  note res = less.prems
  show ?case
  proof (cases rule: loop_round_cases [where g = g and i = i])
    case (stop g1)
    with loop_stop [OF stop, of i r] res gen_next_None_weight [OF stop] show ?thesis by simp
  next
    case (skip n l g1)
    from gen_next_weight [OF skip(1)] have w: "gen_weight g1 < gen_weight g"
      by (simp add: line_weight_def)
    from loop_skip [OF skip, of i r] res have "parseYAML_loop g1 i r = Inr (v, g')" by simp
    from less.hyps [OF w this] w show ?thesis by simp
  next
    case (unparseable n l g1)
    with loop_unparseable [OF unparseable, of i r] res show ?thesis by simp
  next
    case (outdent n l g1 p)
    from loop_outdent [OF outdent, of r] res have "gen_send g1 (n, l) = Inr g'"
      by (simp split: sum.splits)
    from gen_send_weight [OF this] gen_next_weight [OF outdent(1)] show ?thesis by simp
  next
    case (item n l g1 p)
    let ?s = "replicate (length (grp_indent p) + length (group_or (grp_itemMarker p) [])) SP
                @ lineContent_of p"
    from loop_item [OF item, of r] res obtain r1 i1 g2 c g3 where
      s: "gen_send g1 (n, ?s) = Inr g2"
      and c: "parseYAML_loop g2 (i1 + 1) PyNone = Inr (c, g3)"
      and k: "parseYAML_loop g3 i1 (list_append r1 c) = Inr (v, g')"
      by (auto split: sum.splits prod.splits)
    from pushed_lighter_class [OF item(3), of _] item(5) have "line_weight ?s < line_weight l"
      by simp
    with gen_send_weight [OF s] gen_next_weight [OF item(1)]
    have w2: "gen_weight g2 < gen_weight g" by simp
    from less.hyps [OF w2 c] w2 have w3: "gen_weight g3 < gen_weight g" by simp
    from less.hyps [OF w3 k] w3 show ?thesis by simp
  next
    case (key n l g1 p)
    let ?s = "replicate (length (grp_indent p) + length (group_or (grp_key p) [])
                  + length (group_or (grp_keyExtra p) [])) SP @ lineContent_of p"
    from loop_key [OF key, of r] res obtain r1 i1 g2 c g3 where
      s: "gen_send g1 (n, ?s) = Inr g2"
      and c: "parseYAML_loop g2 (i1 + 1) PyNone = Inr (c, g3)"
      and k: "parseYAML_loop g3 i1 (dict_setitem r1 (group_or (grp_key p) []) c) = Inr (v, g')"
      by (auto split: sum.splits prod.splits)
    from pushed_lighter_class [OF key(3), of _] key(5) have "line_weight ?s < line_weight l"
      by simp
    with gen_send_weight [OF s] gen_next_weight [OF key(1)]
    have w2: "gen_weight g2 < gen_weight g" by simp
    from less.hyps [OF w2 c] w2 have w3: "gen_weight g3 < gen_weight g" by simp
    from less.hyps [OF w3 k] w3 show ?thesis by simp
  next
    case (data n l g1 p)
    from gen_next_weight [OF data(1)] have w: "gen_weight g1 < gen_weight g"
      by (simp add: line_weight_def)
    from loop_data [OF data, of r] res obtain r1 where
      "parseYAML_loop g1 i r1 = Inr (v, g')" by (auto split: sum.splits)
    from less.hyps [OF w this] w show ?thesis by simp
  qed
qed

section \<open>Data lines\<close>

lemma strip_Nil_iff: "strip s = [] \<longleftrightarrow> (\<forall>c \<in> set s. isspace c)"
proof -
  have "strip s = [] \<longleftrightarrow> (\<forall>c \<in> set (dropWhile isspace (rev s)). isspace c)"
    by (simp add: strip_def lstrip_def rstrip_def dropWhile_eq_Nil_conv)
  also have "\<dots> \<longleftrightarrow> dropWhile isspace (rev s) = []"
  proof
    assume a: "\<forall>c \<in> set (dropWhile isspace (rev s)). isspace c"
    show "dropWhile isspace (rev s) = []"
    proof (rule ccontr)
      assume ne: "dropWhile isspace (rev s) \<noteq> []"
      then have "\<not> isspace (hd (dropWhile isspace (rev s)))" by (rule hd_dropWhile)
      moreover from ne have "hd (dropWhile isspace (rev s)) \<in> set (dropWhile isspace (rev s))"
        by simp
      ultimately show False using a by blast
    qed
  next
    assume e: "dropWhile isspace (rev s) = []"
    show "\<forall>c \<in> set (dropWhile isspace (rev s)). isspace c" unfolding e by simp
  qed
  also have "\<dots> \<longleftrightarrow> (\<forall>c \<in> set s. isspace c)"
    by (simp add: dropWhile_eq_Nil_conv)
  finally show ?thesis .
qed

lemma data_payload_SomeD:
  assumes "data_payload l = Some c"
  shows "\<not> ignorable l"
    and "\<exists>p. yamlLineRegex l = Some p \<and> line_class p = Class_yamlValue
           \<and> lineContent_of p = c \<and> grp_indent p = []"
    and "c \<noteq> []"
proof -
  from assms show ni: "\<not> ignorable l" by (auto simp: data_payload_def split: if_splits)
  from assms ni obtain p where p: "yamlLineRegex l = Some p" "line_class p = Class_yamlValue"
      "lineContent_of p = c"
    by (auto simp: data_payload_def split: option.splits if_splits)
  have noitem: "item_alt (dropWhile (\<lambda>x. x = SP) l) = None"
  proof (cases "item_alt (dropWhile (\<lambda>x. x = SP) l)")
    case (Some mc)
    obtain m c' where "mc = (m, c')" by (cases mc)
    with Some item_alt_content [of _ m c'] p(1) have "group_or (grp_itemMarker p) [] \<noteq> []"
      by (auto simp: yamlLineRegex_def group_or_def)
    with p(2) show ?thesis by (simp add: line_class_def)
  qed simp
  with p(1) have ca: "content_alt l = Some p" by (simp add: yamlLineRegex_def)
  then have ws: "\<forall>x \<in> set (dropWhile (\<lambda>x. x \<noteq> NL) l). isspace x"
    by (simp add: content_alt_def split: if_splits)
  from ca p(2) have g: "grp_indent p = []" "grp_content p = Some (takeWhile (\<lambda>x. x \<noteq> NL) l)"
      "grp_itemContent p = None"
    by (auto simp: content_alt_def Let_def line_class_def group_or_def split: if_splits)
  from g(1) p show "\<exists>p. yamlLineRegex l = Some p \<and> line_class p = Class_yamlValue
           \<and> lineContent_of p = c \<and> grp_indent p = []" by blast
  from ni obtain x where x: "x \<in> set l" "\<not> isspace x"
    by (auto simp: ignorable_def strip_Nil_iff)
  have "set l = set (takeWhile (\<lambda>x. x \<noteq> NL) l) \<union> set (dropWhile (\<lambda>x. x \<noteq> NL) l)"
    by (metis set_append takeWhile_dropWhile_id)
  with x ws have "x \<in> set (takeWhile (\<lambda>x. x \<noteq> NL) l)" by blast
  with x(2) have "strip (takeWhile (\<lambda>x. x \<noteq> NL) l) \<noteq> []"
    by (auto simp: strip_Nil_iff)
  moreover have "c = strip (takeWhile (\<lambda>x. x \<noteq> NL) l) \<or> c = strip []"
    using p(3) g by (simp add: lineContent_of_def group_or_def)
  moreover have "takeWhile (\<lambda>x. x \<noteq> NL) l \<noteq> []" using calculation(1)
    by (auto simp: strip_Nil_iff)
  ultimately show "c \<noteq> []" using p(3) g by (simp add: lineContent_of_def group_or_def)
qed

lemma loop_data_payload:
  assumes "gen_next g = (Some (n, l), g1)" and "data_payload l = Some c"
  shows "parseYAML_loop g 0 r =
           (case data_line r n l c of Inl e \<Rightarrow> Inl e | Inr r1 \<Rightarrow> parseYAML_loop g1 0 r1)"
proof -
  from data_payload_SomeD [OF assms(2)] obtain p where
    "\<not> ignorable l" "yamlLineRegex l = Some p" "line_class p = Class_yamlValue"
    "lineContent_of p = c" by blast
  with loop_data [OF assms(1), of p 0 r] show ?thesis by simp
qed

text \<open>A scalar with text takes every data line that follows, up to the end of the input.\<close>

lemma scalar_run:
  assumes "queue g = []" and "pending g = nls"
    and "map (\<lambda>nl. data_payload (snd nl)) nls = map Some ps" and "t \<noteq> []"
  shows "\<exists>g'. parseYAML_loop g 0 (YamlValue t n)
              = Inr (YamlValue (t @ concat (map (\<lambda>p. NL # p) ps)) n, g')"
  using assms
proof (induction nls arbitrary: g ps t)
  case Nil
  then have "fst (gen_next g) = None" by (simp add: next_stops_iff)
  then obtain g1 where "gen_next g = (None, g1)" by (cases "gen_next g") auto
  with Nil show ?case by (simp add: loop_stop)
next
  case (Cons nl nls)
  obtain m l where nl: "nl = (m, l)" by (cases nl)
  from Cons.prems(3) nl obtain p ps' where ps: "ps = p # ps'" "data_payload l = Some p"
    "map (\<lambda>nl. data_payload (snd nl)) nls = map Some ps'" by (cases ps) auto
  from next_from_input [OF Cons.prems(1), of nl nls] Cons.prems(2) nl obtain g1 where
    g1: "gen_next g = (Some (m, l), g1)" "queue g1 = []" "pending g1 = nls" by auto
  have "parseYAML_loop g 0 (YamlValue t n) = parseYAML_loop g1 0 (YamlValue (t @ NL # p) n)"
    using loop_data_payload [OF g1(1) ps(2), of "YamlValue t n"] Cons.prems(4)
    by (simp add: data_line_def expectYAML_def isinstance_def)
  moreover from Cons.IH [OF g1(2) g1(3) ps(3), of "t @ NL # p"] obtain g' where
    "parseYAML_loop g1 0 (YamlValue (t @ NL # p) n)
       = Inr (YamlValue ((t @ NL # p) @ concat (map (\<lambda>p. NL # p) ps')) n, g')" by auto
  ultimately show ?case using ps(1) by simp
qed


lemma join_lines_Cons: "join_lines (p # ps) = p @ concat (map (\<lambda>p. NL # p) ps)"
  by (induction ps arbitrary: p) auto

text \<open>Lines that are dropped in front of the input do not count.\<close>

lemma skip_prefix:
  assumes "queue g = []" and "pending g = pre @ nls" and "\<forall>nl \<in> set pre. ignorable (snd nl)"
  shows "\<exists>g1. parseYAML_loop g i r = parseYAML_loop g1 i r \<and> queue g1 = [] \<and> pending g1 = nls"
  using assms
proof (induction pre arbitrary: g)
  case Nil
  then show ?case by auto
next
  case (Cons nl pre)
  obtain m l where nl: "nl = (m, l)" by (cases nl)
  from next_from_input [OF Cons.prems(1), of nl "pre @ nls"] Cons.prems(2) nl obtain g1 where
    g1: "gen_next g = (Some (m, l), g1)" "queue g1 = []" "pending g1 = pre @ nls" by auto
  from Cons.prems(3) nl have "ignorable l" by simp
  with loop_skip [OF g1(1)] have "parseYAML_loop g i r = parseYAML_loop g1 i r" by simp
  with Cons.IH [OF g1(2) g1(3)] Cons.prems(3) show ?case by auto
qed

lemma generator_start:
  "queue (parseYAML_generator fs (Lines ls)) = []"
  "pending (parseYAML_generator fs (Lines ls)) = enumerate 1 ls"
  by (simp_all add: parseYAML_generator_def queue_def pending_def)

lemma parseYAML_skip_prefix:
  assumes "\<forall>l \<in> set pre. ignorable l"
  shows "\<exists>g. parseYAML fs (Lines (pre @ ls))
            = (case parseYAML_loop g 0 PyNone of Inl e \<Rightarrow> Inl e | Inr (v, g') \<Rightarrow> Inr v)
          \<and> queue g = [] \<and> pending g = enumerate (Suc (length pre)) ls"
proof -
  have "pending (parseYAML_generator fs (Lines (pre @ ls)))
        = enumerate 1 pre @ enumerate (Suc (length pre)) ls"
    by (simp add: generator_start enumerate_append_eq)
  moreover have "\<forall>nl \<in> set (enumerate 1 pre). ignorable (snd nl)"
    using assms by (auto simp: in_set_enumerate_eq)
  ultimately obtain g1 where
    "parseYAML_loop (parseYAML_generator fs (Lines (pre @ ls))) 0 PyNone = parseYAML_loop g1 0 PyNone"
    "queue g1 = []" "pending g1 = enumerate (Suc (length pre)) ls"
    using skip_prefix [OF generator_start(1), of fs "pre @ ls" "enumerate 1 pre" _ 0 PyNone]
    by blast
  then show ?thesis by (auto simp: parseYAML_def parseYAML_inner_def)
qed

lemma strip_strip: "strip (strip s) = strip s"
proof (cases "strip s = []")
  case True
  have "strip [] = []" by (simp add: strip_def lstrip_def rstrip_def)
  with True show ?thesis by simp
next
  case False
  define u where "u = rev (dropWhile isspace (rev s))"
  have t: "strip s = dropWhile isspace u" by (simp add: strip_def lstrip_def rstrip_def u_def)
  with False have une: "u \<noteq> []" by auto
  then have "\<not> isspace (hd (rev u))" unfolding u_def by (simp add: hd_dropWhile)
  then have lu: "\<not> isspace (last u)" using une by (simp add: hd_rev)
  obtain v where v: "u = v @ strip s" unfolding t by (metis takeWhile_dropWhile_id)
  with False have "last (strip s) = last u" by simp
  with lu have "\<not> isspace (hd (rev (strip s)))" using False by (simp add: hd_rev)
  then have "dropWhile isspace (rev (strip s)) = rev (strip s)"
    using False by (cases "rev (strip s)") auto
  then have 1: "rstrip (strip s) = strip s" by (simp add: rstrip_def)
  have "\<not> isspace (hd (strip s))" using False unfolding t by (rule hd_dropWhile)
  then have "dropWhile isspace (strip s) = strip s" using False by (cases "strip s") auto
  with 1 show ?thesis by (simp add: strip_def [of "strip s"] lstrip_def)
qed

lemma data_payload_strip:
  assumes "data_payload l = Some c"
  shows "strip c = c"
  using data_payload_SomeD(2) [OF assms] by (auto simp: lineContent_of_def strip_strip)

section \<open>The matches of some lines\<close>

text \<open>
  What \<open>yamlLineRegex\<close> gives for an item, a key, an indented item, an indented key, a
  dash without a space, a line with two line ends, and a line with text after its line
  end. An indent other than 0 only comes with an item marker.
\<close>

lemma yamlLineRegex_examples:
  "yamlLineRegex ''- x'' =
     Some \<lparr>grp_indent = [], grp_itemMarker = Some ''- '', grp_itemContent = Some ''x'',
           grp_key = None, grp_keyExtra = None, grp_content = None\<rparr>"
  "yamlLineRegex ''a.b_c:   z  \<newline>'' =
     Some \<lparr>grp_indent = [], grp_itemMarker = None, grp_itemContent = None,
           grp_key = Some ''a.b_c'', grp_keyExtra = Some '':   '', grp_content = Some ''z  ''\<rparr>"
  "yamlLineRegex ''  - y: 2\<newline>'' =
     Some \<lparr>grp_indent = ''  '', grp_itemMarker = Some ''- '', grp_itemContent = Some ''y: 2'',
           grp_key = None, grp_keyExtra = None, grp_content = None\<rparr>"
  "yamlLineRegex ''   1'' =
     Some \<lparr>grp_indent = [], grp_itemMarker = None, grp_itemContent = None,
           grp_key = None, grp_keyExtra = None, grp_content = Some ''   1''\<rparr>"
  "yamlLineRegex ''-x\<newline>'' =
     Some \<lparr>grp_indent = [], grp_itemMarker = None, grp_itemContent = None,
           grp_key = None, grp_keyExtra = None, grp_content = Some ''-x''\<rparr>"
  "yamlLineRegex ''  - x\<newline>\<newline>'' =
     Some \<lparr>grp_indent = [], grp_itemMarker = None, grp_itemContent = None,
           grp_key = None, grp_keyExtra = None, grp_content = Some ''  - x''\<rparr>"
  "yamlLineRegex ''a\<newline>b'' = None"
  by code_simp+

lemma indent_needs_marker:
  assumes "yamlLineRegex l = Some p" and "grp_itemMarker p = None"
  shows "grp_indent p = []"
  using assms
  by (auto simp: yamlLineRegex_def content_alt_def Let_def split: option.splits if_splits)

section \<open>The scenarios of the specification\<close>

text \<open>
  C1. Scenario 1 of the specification gives, for the text of two keys, a mapping of \<open>a\<close> to
  the scalar \<open>1\<close> and of \<open>b\<close> to a sequence. The parser raises instead: the value of \<open>a\<close>
  is pushed back with three leading spaces, the second alternative of \<open>yamlLineRegex\<close>
  reads it with indent 0, the nested call hands it back, and the outer call finds a
  data line while it works on a dict.
\<close>

theorem parseYAML_scenario_1_raises:
  "parseYAML no_files (Str ''a: 1\<newline>b:\<newline>  - x\<newline>  - y\<newline>'')
   = Inl (BadYAML ''type'' ''dict'' 1 ''   1'')"
  by code_simp

text \<open>
  C2. The line \<open>y: 2\<close> behind two spaces has two leading spaces and a key after them, but
  the match has an empty \<open>indent\<close>, no \<open>key\<close>, and the whole line as \<open>content\<close>: the
  second alternative of the regular expression starts with its own \<^verbatim>\<open>^\<close>, so that it
  only matches with an empty \<open>indent\<close> (\<open>indent_needs_marker\<close>).
\<close>

theorem yamlLineRegex_indented_key:
  "length (takeWhile (\<lambda>c. c = SP) ''  y: 2\<newline>'') = 2
   \<and> yamlLineRegex ''  y: 2\<newline>''
     = Some \<lparr>grp_indent = [], grp_itemMarker = None, grp_itemContent = None,
              grp_key = None, grp_keyExtra = None, grp_content = Some ''  y: 2''\<rparr>"
  by code_simp

text \<open>
  C9. The exception of \<open>expectYAML\<close> names the class of the value the block has, the line
  number and the line without its trailing white space. For the class it expected it
  formats \<^verbatim>\<open>expected.__class__.__name__\<close>, and \<open>expected\<close> is itself a class: the message
  always says \<open>type\<close>, here for a data line where a \<open>yamlValue\<close> was expected.
\<close>

theorem type_mismatch_names_type:
  "parseYAML no_files (Str ''a:\<newline>foo  \<newline>'') = Inl (BadYAML ''type'' ''dict'' 2 ''foo'')
   \<and> class_name Class_yamlValue \<noteq> ''type''"
  by code_simp

section \<open>The line source\<close>

text \<open>
  C8. In every state of the generator: \<^verbatim>\<open>next\<close> returns the line pushed back last when
  there is one, and leaves the others and the input as they are; with nothing pushed
  back it returns the next line of the input; it signals the end exactly when nothing is
  pushed back and the input is used up; and lines pushed back one after the other come
  back in reverse order, after which the source is as before.
\<close>

theorem line_source_stack:
  "(queue g = x # xs \<longrightarrow>
      (\<exists>g'. gen_next g = (Some x, g') \<and> queue g' = xs \<and> pending g' = pending g))
   \<and> (queue g = [] \<and> pending g = x # xs \<longrightarrow>
      (\<exists>g'. gen_next g = (Some x, g') \<and> queue g' = [] \<and> pending g' = xs))
   \<and> (fst (gen_next g) = None \<longleftrightarrow> queue g = [] \<and> pending g = [])
   \<and> (gen_pc g = Suspended \<longrightarrow>
      (\<exists>g1 g2. gen_sends g bs = Inr g1 \<and> queue g1 = rev bs @ queue g
         \<and> pending g1 = pending g
         \<and> gen_nexts (length bs) g1 = (map Some (rev bs), g2)
         \<and> queue g2 = queue g \<and> pending g2 = pending g))"
proof (intro conjI impI)
  assume "queue g = x # xs"
  then show "\<exists>g'. gen_next g = (Some x, g') \<and> queue g' = xs \<and> pending g' = pending g"
    by (rule next_from_queue)
next
  assume "queue g = [] \<and> pending g = x # xs"
  then show "\<exists>g'. gen_next g = (Some x, g') \<and> queue g' = [] \<and> pending g' = xs"
    using next_from_input by blast
next
  show "fst (gen_next g) = None \<longleftrightarrow> queue g = [] \<and> pending g = []"
    by (rule next_stops_iff)
next
  assume "gen_pc g = Suspended"
  from sends_push [OF this, of bs] obtain g1 where
    1: "gen_sends g bs = Inr g1" "queue g1 = rev bs @ queue g" "pending g1 = pending g" by blast
  from nexts_drain [OF 1(2)] obtain g2 where
    2: "gen_nexts (length (rev bs)) g1 = (map Some (rev bs), g2)" "queue g2 = queue g"
       "pending g2 = pending g1" by blast
  from 1 2 show "\<exists>g1 g2. gen_sends g bs = Inr g1 \<and> queue g1 = rev bs @ queue g
         \<and> pending g1 = pending g
         \<and> gen_nexts (length bs) g1 = (map Some (rev bs), g2)
         \<and> queue g2 = queue g \<and> pending g2 = pending g"
    by auto
qed

theorem line_source_stack_witness:
  "queue gen_with_pushback = [(1, ''   1'')]
   \<and> fst (gen_next gen_with_pushback) = Some (1, ''   1'')
   \<and> queue gen_without_pushback = [] \<and> pending gen_without_pushback = [(2, ''b'')]
   \<and> fst (gen_next gen_without_pushback) = Some (2, ''b'')
   \<and> gen_pc gen_with_pushback = Suspended
   \<and> (\<exists>g1 g2. gen_sends gen_with_pushback [(7, ''x''), (8, ''y'')] = Inr g1
         \<and> gen_nexts 2 g1 = ([Some (8, ''y''), Some (7, ''x'')], g2)
         \<and> queue g2 = queue gen_with_pushback)"
  using line_source_stack [of gen_with_pushback "(1, ''   1'')" "[]" "[(7, ''x''), (8, ''y'')]"]
    line_source_stack [of gen_without_pushback "(2, ''b'')" "[]" "[]"]
  by (auto simp: gen_with_pushback_def gen_without_pushback_def queue_def pending_def
      numeral_2_eq_2)

section \<open>A string that names a file\<close>



section \<open>Kind commitment\<close>

text \<open>
  C3. The first line commits the block to a list at indent 2. The second line has the
  same two leading spaces and a key, so it is a line of another kind at the baseline of
  the block. \<open>yamlLineRegex\<close> reads it with indent 0 and without a key (see C2): the
  block takes it for a line of an outer block, hands it back and returns its list, and
  the parse returns that list without an exception. In scenario 4 the exception is
  raised for line 2, the value of the item read as data at indent 0 under the dict,
  before the key of line 3 is read.
\<close>

theorem key_after_item_returns:
  "parseYAML no_files (Str ''  - \<newline>  y: 2\<newline>'') = Inr (PyList [PyNone])
   \<and> parseYAML no_files (Str ''x:\<newline>  - 1\<newline>  y: 2\<newline>'')
     = Inl (BadYAML ''type'' ''dict'' 2 ''    1'')"
  by code_simp

text \<open>
  What the loop does enforce, with the kind and the indent that \<open>yamlLineRegex\<close> gives: a
  block that has a value and reads a line, not indented less than the block, that asks
  for another class raises the exception of \<open>expectYAML\<close> for that line; a block that
  is indented more than the line returns at once and leaves the line, as it is, to be
  the next one its caller reads.
\<close>

lemma loop_keeps_class:
  "(gen_next g = (Some (n, l), g1) \<and> \<not> ignorable l \<and> yamlLineRegex l = Some p
      \<and> indent \<le> length (grp_indent p) \<and> returnItem \<noteq> PyNone
      \<and> class_of returnItem \<noteq> line_class p
    \<longrightarrow> parseYAML_loop g indent returnItem
        = Inl (BadYAML ''type'' (class_name (class_of returnItem)) n (rstrip l)))
   \<and> (gen_next g = (Some (n, l), g1) \<and> \<not> ignorable l \<and> yamlLineRegex l = Some p
      \<and> length (grp_indent p) < indent
    \<longrightarrow> (\<exists>g2. parseYAML_loop g indent returnItem = Inr (returnItem, g2)
          \<and> gen_next g2 = (Some (n, l), g1)))"
proof (intro conjI impI)
  assume a: "gen_next g = (Some (n, l), g1) \<and> \<not> ignorable l \<and> yamlLineRegex l = Some p
      \<and> indent \<le> length (grp_indent p) \<and> returnItem \<noteq> PyNone
      \<and> class_of returnItem \<noteq> line_class p"
  then have ge: "\<not> length (grp_indent p) < indent" by simp
  show "parseYAML_loop g indent returnItem
        = Inl (BadYAML ''type'' (class_name (class_of returnItem)) n (rstrip l))"
  proof (cases p rule: line_class_cases)
    case 1
    with a loop_item [of g n l g1 p indent returnItem] ge show ?thesis
      by (simp add: begin_block_def expectYAML_def isinstance_def class_of_class_def)
  next
    case 2
    with a loop_key [of g n l g1 p indent returnItem] ge show ?thesis
      by (simp add: begin_block_def expectYAML_def isinstance_def class_of_class_def)
  next
    case 3
    with a loop_data [of g n l g1 p indent returnItem] ge show ?thesis
      by (simp add: data_line_def expectYAML_def isinstance_def class_of_class_def)
  qed
next
  assume a: "gen_next g = (Some (n, l), g1) \<and> \<not> ignorable l \<and> yamlLineRegex l = Some p
      \<and> length (grp_indent p) < indent"
  then have nx: "gen_next g = (Some (n, l), g1)" by simp
  from gen_next_pc [OF nx] have pc: "gen_pc g1 = Suspended" .
  let ?g2 = "g1\<lparr>gen_backlines := gen_backlines g1 @ [(n, l)]\<rparr>"
  from pc have s: "gen_send g1 (n, l) = Inr ?g2" by (simp add: gen_send_def)
  with a loop_outdent [of g n l g1 p indent returnItem]
  have "parseYAML_loop g indent returnItem = Inr (returnItem, ?g2)" by simp
  moreover from pc have "gen_next ?g2 = (Some (n, l), g1)"
    by (simp add: gen_next_def resume_none_def)
  ultimately show "\<exists>g2. parseYAML_loop g indent returnItem = Inr (returnItem, g2)
          \<and> gen_next g2 = (Some (n, l), g1)" by blast
qed

lemma loop_keeps_class_example:
  "gen_next gen_without_pushback = (Some (2, ''b''), gen_after_b)
   \<and> \<not> ignorable ''b'' \<and> yamlLineRegex ''b'' = Some match_b
   \<and> 0 \<le> length (grp_indent match_b) \<and> PyDict [(''a'', PyNone)] \<noteq> PyNone
   \<and> class_of (PyDict [(''a'', PyNone)]) \<noteq> line_class match_b
   \<and> parseYAML_loop gen_without_pushback 0 (PyDict [(''a'', PyNone)])
     = Inl (BadYAML ''type'' ''dict'' 2 ''b'')
   \<and> length (grp_indent match_b) < 1
   \<and> (\<exists>g2. parseYAML_loop gen_without_pushback 1 PyNone = Inr (PyNone, g2)
         \<and> gen_next g2 = (Some (2, ''b''), gen_after_b))"
proof -
  have 1: "gen_next gen_without_pushback = (Some (2, ''b''), gen_after_b)"
    by (simp add: gen_without_pushback_def gen_after_b_def gen_next_def resume_none_def
        for_next_def)
  have 2: "\<not> ignorable ''b''"
    by (simp add: ignorable_def strip_def lstrip_def rstrip_def isspace_def commentLineRegex_def)
  have 3: "yamlLineRegex ''b'' = Some match_b"
    by (simp add: yamlLineRegex_def item_alt_def content_alt_def keychar_def match_b_def)
  have 4: "class_of (PyDict [(''a'', PyNone)]) \<noteq> line_class match_b"
    by (simp add: line_class_def match_b_def group_or_def)
  have 5: "rstrip ''b'' = ''b''" by (simp add: rstrip_def isspace_def)
  have 6: "length (grp_indent match_b) < 1" by (simp add: match_b_def)
  from loop_keeps_class [of gen_without_pushback 2 "''b''" gen_after_b match_b 0
      "PyDict [(''a'', PyNone)]"]
    loop_keeps_class [of gen_without_pushback 2 "''b''" gen_after_b match_b 1 PyNone]
    1 2 3 4 5 6
  show ?thesis by simp
qed

section \<open>Scalar concatenation\<close>




text \<open>
  A run of data lines under a key is not in the statement above: the nested block hands
  the first of them back, since it is read at indent 0, and the dict rejects it.
\<close>

lemma run_under_key_raises:
  "parseYAML no_files (Str ''k:\<newline>  line1\<newline>  line2\<newline>'')
   = Inl (BadYAML ''type'' ''dict'' 2 ''  line1'')"
  by code_simp

section \<open>Block-scalar markers\<close>

text \<open>
  C6. Scenario 3 of the specification: the value of the key is the marker \<open>|\<close>, and the
  two lines under it are the text of the scalar. The marker is pushed back behind three
  spaces and read with indent 0, so the nested block hands it back without committing a
  scalar, and the dict rejects it as a data line: the parse raises for line 1.
\<close>

theorem marker_under_key_raises:
  "parseYAML no_files (Str ''k: |\<newline>  line1\<newline>  line2\<newline>'')
   = Inl (BadYAML ''type'' ''dict'' 1 ''   |'')"
  by code_simp

text \<open>
  At the top of the input the marker does what it is meant to do: when the first data
  line has the content \<open>|\<close>, \<open>|-\<close> or \<open>>\<close>, the text of the scalar is made of the data
  lines after it alone, and the result is a \<open>yamlValue\<close> even when no data line follows.
\<close>

lemma marker_at_top_adds_no_text:
  assumes "\<forall>l \<in> set pre. ignorable l"
    and "data_payload l0 = Some m" and "multiline_marker m"
    and "map data_payload ls = map Some ps"
  shows "parseYAML fs (Lines (pre @ l0 # ls))
         = Inr (YamlValue (join_lines ps)
                  (if ps = [] then Suc (length pre) else Suc (Suc (length pre))))"
proof -
  let ?n = "Suc (length pre)"
  from parseYAML_skip_prefix [OF assms(1), of fs "l0 # ls"] obtain g where
    g: "parseYAML fs (Lines (pre @ l0 # ls))
          = (case parseYAML_loop g 0 PyNone of Inl e \<Rightarrow> Inl e | Inr (v, g') \<Rightarrow> Inr v)"
       "queue g = []" "pending g = enumerate ?n (l0 # ls)" by blast
  from next_from_input [OF g(2), of "(?n, l0)" "enumerate (Suc ?n) ls"] g(3)
  obtain g1 where g1: "gen_next g = (Some (?n, l0), g1)" "queue g1 = []"
    "pending g1 = enumerate (Suc ?n) ls" by auto
  have start: "parseYAML_loop g 0 PyNone = parseYAML_loop g1 0 (YamlValue [] ?n)"
    using loop_data_payload [OF g1(1) assms(2), of PyNone] assms(3)
      data_payload_strip [OF assms(2)]
    by (simp add: data_line_def)
  show ?thesis
  proof (cases ls)
    case Nil
    with g1 have "fst (gen_next g1) = None" by (simp add: next_stops_iff)
    then obtain g2 where "gen_next g1 = (None, g2)" by (cases "gen_next g1") auto
    then have "parseYAML_loop g1 0 (YamlValue [] ?n) = Inr (YamlValue [] ?n, g2)"
      by (rule loop_stop)
    with start g(1) Nil assms(4) show ?thesis by simp
  next
    case (Cons l ls')
    with assms(4) obtain p ps' where ps: "ps = p # ps'" "data_payload l = Some p"
      "map data_payload ls' = map Some ps'" by (cases ps) auto
    from next_from_input [OF g1(2), of "(Suc ?n, l)" "enumerate (Suc (Suc ?n)) ls'"] g1(3) Cons
    obtain g2 where g2: "gen_next g1 = (Some (Suc ?n, l), g2)" "queue g2 = []"
      "pending g2 = enumerate (Suc (Suc ?n)) ls'" by auto
    have pne: "p \<noteq> []" using data_payload_SomeD(3) [OF ps(2)] .
    have "parseYAML_loop g1 0 (YamlValue [] ?n) = parseYAML_loop g2 0 (YamlValue p (Suc ?n))"
      using loop_data_payload [OF g2(1) ps(2), of "YamlValue [] ?n"]
      by (simp add: data_line_def expectYAML_def isinstance_def)
    moreover have "map (\<lambda>nl. data_payload (snd nl)) (enumerate (Suc (Suc ?n)) ls') = map Some ps'"
      using ps(3) map_map [of data_payload snd "enumerate (Suc (Suc ?n)) ls'"]
      by (simp add: comp_def)
    from scalar_run [OF g2(2) g2(3) this pne, of "Suc ?n"] obtain g' where
      "parseYAML_loop g2 0 (YamlValue p (Suc ?n)) = Inr (YamlValue (join_lines (p # ps')) (Suc ?n), g')"
      by (auto simp: join_lines_Cons)
    ultimately show ?thesis using start g(1) ps(1) by simp
  qed
qed

lemma marker_at_top_adds_no_text_example:
  "ignorable ''# c\<newline>''
   \<and> data_payload ''|-  \<newline>'' = Some ''|-'' \<and> multiline_marker ''|-''
   \<and> map data_payload [''line1\<newline>'', '' line2\<newline>''] = map Some [''line1'', ''line2'']
   \<and> parseYAML no_files (Lines ([''# c\<newline>''] @ ''|-  \<newline>'' # [''line1\<newline>'', '' line2\<newline>'']))
     = Inr (YamlValue ''line1\<newline>line2'' 3)
   \<and> map data_payload [] = map Some []
   \<and> parseYAML no_files (Lines ([''# c\<newline>''] @ ''|-  \<newline>'' # [])) = Inr (YamlValue [] 2)"
proof -
  have 1: "\<forall>l \<in> set [''# c\<newline>'']. ignorable l" by code_simp
  have 2: "data_payload ''|-  \<newline>'' = Some ''|-''" by code_simp
  have 3: "multiline_marker ''|-''" by code_simp
  have 4: "map data_payload [''line1\<newline>'', '' line2\<newline>''] = map Some [''line1'', ''line2'']"
    by code_simp
  have 5: "map data_payload [] = map Some []" by simp
  from marker_at_top_adds_no_text [OF 1 2 3 4, of no_files] marker_at_top_adds_no_text [OF 1 2 3 5, of no_files]
    1 2 3 4
  show ?thesis by simp
qed

section \<open>The line number of a scalar\<close>

text \<open>
  C5, as amended. A scalar that has text keeps its line number to the end of its block.
  A scalar without text, which is what a marker line leaves, takes the content and the
  line number of the next data line.
\<close>

theorem linenumber_kept:
  "(t \<noteq> [] \<and> parseYAML_loop g i (YamlValue t n) = Inr (v, g') \<longrightarrow> (\<exists>t'. v = YamlValue t' n \<and> t' \<noteq> []))
   \<and> data_line (YamlValue [] n) m l c = Inr (YamlValue c m)"
proof (intro conjI impI)
  show "data_line (YamlValue [] n) m l c = Inr (YamlValue c m)"
    by (simp add: data_line_def expectYAML_def isinstance_def)
next
  assume "t \<noteq> [] \<and> parseYAML_loop g i (YamlValue t n) = Inr (v, g')"
  then have "t \<noteq> []" and "parseYAML_loop g i (YamlValue t n) = Inr (v, g')" by simp_all
  then show "\<exists>t'. v = YamlValue t' n \<and> t' \<noteq> []"
  proof (induction "gen_weight g" arbitrary: g t rule: less_induct)
    case less
    note res = less.prems(2)
    obtain x g1 where nx: "gen_next g = (x, g1)" by (cases "gen_next g")
    show ?case
    proof (cases x)
      case None
      with nx loop_stop [of g g1 i "YamlValue t n"]
      have "parseYAML_loop g i (YamlValue t n) = Inr (YamlValue t n, g1)" by simp
      with res have "v = YamlValue t n" by simp
      with less.prems(1) show ?thesis by simp
    next
      case (Some nl)
      obtain k l where nl: "nl = (k, l)" by (cases nl)
      with nx Some have nx': "gen_next g = (Some (k, l), g1)" by simp
      from gen_next_weight [OF nx'] have w: "gen_weight g1 < gen_weight g"
        by (simp add: line_weight_def)
      show ?thesis
      proof (cases "ignorable l")
        case True
        with loop_skip [OF nx' True, of i "YamlValue t n"] res
        have "parseYAML_loop g1 i (YamlValue t n) = Inr (v, g')" by simp
        from less.hyps [OF w less.prems(1) this] show ?thesis .
      next
        case False
        show ?thesis
        proof (cases "yamlLineRegex l")
          case None
          with loop_unparseable [OF nx' False None, of i "YamlValue t n"] res show ?thesis by simp
        next
          case p: (Some p)
          show ?thesis
          proof (cases "length (grp_indent p) < i")
            case True
            with loop_outdent [OF nx' False p True, of "YamlValue t n"] res less.prems(1)
            show ?thesis by (auto split: sum.splits)
          next
            case ge: False
            show ?thesis
            proof (cases p rule: line_class_cases)
              case 1
              with loop_item [OF nx' False p ge 1, of "YamlValue t n"] res show ?thesis
                by (simp add: begin_block_def expectYAML_def isinstance_def)
            next
              case 2
              with loop_key [OF nx' False p ge 2, of "YamlValue t n"] res show ?thesis
                by (simp add: begin_block_def expectYAML_def isinstance_def)
            next
              case 3
              with loop_data [OF nx' False p ge 3, of "YamlValue t n"] res less.prems(1)
              have "parseYAML_loop g1 i (YamlValue (t @ NL # lineContent_of p) n) = Inr (v, g')"
                by (simp add: data_line_def expectYAML_def isinstance_def)
              from less.hyps [OF w _ this] show ?thesis by simp
            qed
          qed
        qed
      qed
    qed
  qed
qed

theorem linenumber_kept_witness:
  "''a'' \<noteq> []
   \<and> parseYAML_loop gen_without_pushback 0 (YamlValue ''a'' 1)
     = Inr (YamlValue ''a\<newline>b'' 1, gen_after_b\<lparr>gen_pc := Done\<rparr>)
   \<and> (\<exists>t'. YamlValue ''a\<newline>b'' 1 = YamlValue t' 1 \<and> t' \<noteq> [])"
proof -
  have 1: "parseYAML_loop gen_without_pushback 0 (YamlValue ''a'' 1)
     = Inr (YamlValue ''a\<newline>b'' 1, gen_after_b\<lparr>gen_pc := Done\<rparr>)"
    by code_simp
  from linenumber_kept [of "''a''" gen_without_pushback 0 1 "YamlValue ''a\<newline>b'' 1"
      "gen_after_b\<lparr>gen_pc := Done\<rparr>"] 1
  show ?thesis by simp
qed

text \<open>
  For the text of a marker line and a data line, the scalar is committed with line
  number 1 by the marker and returned with line number 2.
\<close>

theorem linenumber_reset_after_marker:
  "parseYAML_inner (parseYAML_generator no_files (Str ''|\<newline>foo\<newline>'')) 0
     = parseYAML_loop gen_after_marker 0 (YamlValue [] 1)
   \<and> (case parseYAML_loop gen_after_marker 0 (YamlValue [] 1) of
        Inl e \<Rightarrow> Inl e | Inr (v, g) \<Rightarrow> Inr v) = Inr (YamlValue ''foo'' 2)"
  by code_simp

section \<open>Two runs on the same lines\<close>

text \<open>
  The loop never looks at a line number, and it drops an empty line or a comment
  wherever it reads one. So two runs whose generators hold the same lines, up to dropped
  lines, go through the same rounds and end alike, up to line numbers.
\<close>

lemma forget_lines_class:
  assumes "forget_lines a = forget_lines b"
  shows "class_of a = class_of b" and "a = PyNone \<longleftrightarrow> b = PyNone"
  using assms by (cases a; cases b; simp)+

lemma begin_block_forget:
  assumes "forget_lines r1 = forget_lines r2" and "forget_lines f1 = forget_lines f2"
  shows "(\<exists>e1 e2. begin_block f1 c r1 n1 l li i = Inl e1 \<and> begin_block f2 c r2 n2 l li i = Inl e2
            \<and> forget_error e1 = forget_error e2)
       \<or> (\<exists>ra rb j. begin_block f1 c r1 n1 l li i = Inr (ra, j)
            \<and> begin_block f2 c r2 n2 l li i = Inr (rb, j)
            \<and> forget_lines ra = forget_lines rb)"
  using assms forget_lines_class [OF assms(1)]
  by (auto simp: begin_block_def expectYAML_def isinstance_def)

lemma data_line_forget:
  assumes "forget_lines r1 = forget_lines r2"
  shows "(\<exists>e1 e2. data_line r1 n1 l c = Inl e1 \<and> data_line r2 n2 l c = Inl e2
            \<and> forget_error e1 = forget_error e2)
       \<or> (\<exists>ra rb. data_line r1 n1 l c = Inr ra \<and> data_line r2 n2 l c = Inr rb
            \<and> forget_lines ra = forget_lines rb)"
  using assms forget_lines_class [OF assms]
  by (cases r1; cases r2) (auto simp: data_line_def expectYAML_def isinstance_def)

lemma list_append_forget:
  assumes "forget_lines a = forget_lines b" and "forget_lines c = forget_lines d"
  shows "forget_lines (list_append a c) = forget_lines (list_append b d)"
  using assms by (cases a; cases b) auto

lemma dict_update_forget:
  "map (map_prod id forget_lines) (dict_update k v kvs)
   = dict_update k (forget_lines v) (map (map_prod id forget_lines) kvs)"
  by (induction kvs) auto

lemma dict_setitem_forget:
  assumes "forget_lines a = forget_lines b" and "forget_lines c = forget_lines d"
  shows "forget_lines (dict_setitem a k c) = forget_lines (dict_setitem b k d)"
  using assms by (cases a; cases b) (auto simp: dict_update_forget)

lemma next_None_empty:
  assumes "gen_next g = (None, g')"
  shows "queue g' = []" and "pending g' = []"
  using assms
  by (auto simp: gen_next_def resume_none_def for_next_def queue_def pending_def Let_def
           split: pc.splits list.splits if_splits)

lemma send_same_lines:
  assumes "gen_pc g1 = Suspended" and "gen_pc g2 = Suspended" and "same_lines g1 g2"
  shows "\<exists>h1 h2. gen_send g1 (n1, s) = Inr h1 \<and> gen_send g2 (n2, s) = Inr h2 \<and> same_lines h1 h2
           \<and> gen_weight h1 = gen_weight g1 + line_weight s
           \<and> gen_weight h2 = gen_weight g2 + line_weight s"
proof -
  from send_pushes [OF assms(1), of "(n1, s)"] obtain h1 where
    1: "gen_send g1 (n1, s) = Inr h1" "queue h1 = (n1, s) # queue g1" "pending h1 = pending g1"
    by blast
  from send_pushes [OF assms(2), of "(n2, s)"] obtain h2 where
    2: "gen_send g2 (n2, s) = Inr h2" "queue h2 = (n2, s) # queue g2" "pending h2 = pending g2"
    by blast
  from 1 2 assms(3) have "same_lines h1 h2" by (simp add: same_lines_def)
  with 1(1) 2(1) gen_send_weight [OF 1(1)] gen_send_weight [OF 2(1)] show ?thesis by blast
qed

lemma same_outcome_Inl: "same_outcome (Inl e1) (Inl e2) = (forget_error e1 = forget_error e2)"
  by (simp add: same_outcome_def)

lemma same_outcome_Inr:
  "same_outcome (Inr (v1, h1)) (Inr (v2, h2))
   = (forget_lines v1 = forget_lines v2 \<and> same_lines h1 h2)"
  by (simp add: same_outcome_def)

lemma same_outcome_cases:
  assumes "same_outcome x y"
  obtains e1 e2 where "x = Inl e1" "y = Inl e2" "forget_error e1 = forget_error e2"
  | v1 h1 v2 h2 where "x = Inr (v1, h1)" "y = Inr (v2, h2)" "forget_lines v1 = forget_lines v2"
      "same_lines h1 h2"
  using assms by (cases x; cases y) (auto simp: same_outcome_def)

text \<open>
  A child block on two generators that hold the same lines, and the rest of the loop
  with what the child returns.
\<close>

lemma sim_child:
  assumes IH: "\<And>ga gb ra rb j. gen_weight ga + gen_weight gb < W \<Longrightarrow> same_lines ga gb \<Longrightarrow>
            forget_lines ra = forget_lines rb \<Longrightarrow>
            same_outcome (parseYAML_loop ga j ra) (parseYAML_loop gb j rb)"
    and w: "gen_weight h1 + gen_weight h2 < W" and sl: "same_lines h1 h2"
    and att: "\<And>c d. forget_lines c = forget_lines d \<Longrightarrow> forget_lines (f1 c) = forget_lines (f2 d)"
  shows "same_outcome
           (case parseYAML_loop h1 (j + 1) PyNone of
              Inl e \<Rightarrow> Inl e | Inr (child, g3) \<Rightarrow> parseYAML_loop g3 j (f1 child))
           (case parseYAML_loop h2 (j + 1) PyNone of
              Inl e \<Rightarrow> Inl e | Inr (child, g3) \<Rightarrow> parseYAML_loop g3 j (f2 child))"
proof -
  have "same_outcome (parseYAML_loop h1 (j + 1) PyNone) (parseYAML_loop h2 (j + 1) PyNone)"
    by (rule IH [OF w sl]) simp
  then show ?thesis
  proof (cases rule: same_outcome_cases)
    case (1 e1 e2)
    then show ?thesis by (simp add: same_outcome_Inl)
  next
    case (2 v1 k1 v2 k2)
    from parseYAML_loop_lighter [OF 2(1)] parseYAML_loop_lighter [OF 2(2)] w
    have "gen_weight k1 + gen_weight k2 < W" by simp
    from IH [OF this 2(4) att [OF 2(3)], of j] 2(1,2) show ?thesis by simp
  qed
qed

lemma sim_step:
  assumes nx1: "gen_next g1 = (Some (n1, l), g1')" and nx2: "gen_next g2 = (Some (n2, l), g2')"
    and sl: "same_lines g1' g2'" and fr: "forget_lines r1 = forget_lines r2"
    and IH: "\<And>ga gb ra rb j. gen_weight ga + gen_weight gb < gen_weight g1 + gen_weight g2 \<Longrightarrow>
            same_lines ga gb \<Longrightarrow> forget_lines ra = forget_lines rb \<Longrightarrow>
            same_outcome (parseYAML_loop ga j ra) (parseYAML_loop gb j rb)"
  shows "same_outcome (parseYAML_loop g1 i r1) (parseYAML_loop g2 i r2)"
proof -
  from gen_next_weight [OF nx1] gen_next_weight [OF nx2]
  have w: "gen_weight g1' + line_weight l \<le> gen_weight g1"
    "gen_weight g2' + line_weight l \<le> gen_weight g2" by simp_all
  then have w': "gen_weight g1' + gen_weight g2' < gen_weight g1 + gen_weight g2"
    by (simp add: line_weight_def)
  note pc = gen_next_pc [OF nx1] gen_next_pc [OF nx2]
  show ?thesis
  proof (cases "ignorable l")
    case True
    from IH [OF w' sl fr, of i] loop_skip [OF nx1 True] loop_skip [OF nx2 True]
    show ?thesis by simp
  next
    case False
    show ?thesis
    proof (cases "yamlLineRegex l")
      case None
      from loop_unparseable [OF nx1 False None] loop_unparseable [OF nx2 False None]
      show ?thesis by (simp add: same_outcome_Inl)
    next
      case p: (Some p)
      show ?thesis
      proof (cases "length (grp_indent p) < i")
        case True
        from send_same_lines [OF pc sl, of n1 l n2] obtain h1 h2 where
          "gen_send g1' (n1, l) = Inr h1" "gen_send g2' (n2, l) = Inr h2" "same_lines h1 h2"
          by blast
        with loop_outdent [OF nx1 False p True] loop_outdent [OF nx2 False p True] fr
        show ?thesis by (simp add: same_outcome_Inr)
      next
        case ge: False
        show ?thesis
        proof (cases p rule: line_class_cases)
          case 1
          let ?s = "replicate (length (grp_indent p) + length (group_or (grp_itemMarker p) [])) SP
                      @ lineContent_of p"
          note eq = loop_item [OF nx1 False p ge 1, of r1] loop_item [OF nx2 False p ge 1, of r2]
          from begin_block_forget [OF fr refl, of "PyList []" Class_list n1 l "length (grp_indent p)" i n2]
          show ?thesis
          proof (elim disjE exE conjE)
            fix e1 e2
            assume "begin_block (PyList []) Class_list r1 n1 l (length (grp_indent p)) i = Inl e1"
              "begin_block (PyList []) Class_list r2 n2 l (length (grp_indent p)) i = Inl e2"
              "forget_error e1 = forget_error e2"
            with eq show ?thesis by (simp add: same_outcome_Inl)
          next
            fix ra rb j
            assume b: "begin_block (PyList []) Class_list r1 n1 l (length (grp_indent p)) i = Inr (ra, j)"
              "begin_block (PyList []) Class_list r2 n2 l (length (grp_indent p)) i = Inr (rb, j)"
              and f: "forget_lines ra = forget_lines rb"
            from send_same_lines [OF pc sl, of n1 ?s n2] obtain h1 h2 where
              h: "gen_send g1' (n1, ?s) = Inr h1" "gen_send g2' (n2, ?s) = Inr h2" "same_lines h1 h2"
                "gen_weight h1 = gen_weight g1' + line_weight ?s"
                "gen_weight h2 = gen_weight g2' + line_weight ?s"
              by blast
            from pushed_lighter_class [OF p, of _] 1 have "line_weight ?s < line_weight l" by simp
            with h(4,5) w have hw: "gen_weight h1 + gen_weight h2 < gen_weight g1 + gen_weight g2"
              by simp
            have "same_outcome
               (case parseYAML_loop h1 (j + 1) PyNone of
                  Inl e \<Rightarrow> Inl e | Inr (child, g3) \<Rightarrow> parseYAML_loop g3 j (list_append ra child))
               (case parseYAML_loop h2 (j + 1) PyNone of
                  Inl e \<Rightarrow> Inl e | Inr (child, g3) \<Rightarrow> parseYAML_loop g3 j (list_append rb child))"
              by (rule sim_child [OF IH hw h(3)]) (auto intro: list_append_forget [OF f])
            with eq b h(1,2) show ?thesis by simp
          qed
        next
          case 2
          let ?s = "replicate (length (grp_indent p) + length (group_or (grp_key p) [])
                        + length (group_or (grp_keyExtra p) [])) SP
                      @ lineContent_of p"
          let ?k = "group_or (grp_key p) []"
          note eq = loop_key [OF nx1 False p ge 2, of r1] loop_key [OF nx2 False p ge 2, of r2]
          from begin_block_forget [OF fr refl, of "PyDict []" Class_dict n1 l "length (grp_indent p)" i n2]
          show ?thesis
          proof (elim disjE exE conjE)
            fix e1 e2
            assume "begin_block (PyDict []) Class_dict r1 n1 l (length (grp_indent p)) i = Inl e1"
              "begin_block (PyDict []) Class_dict r2 n2 l (length (grp_indent p)) i = Inl e2"
              "forget_error e1 = forget_error e2"
            with eq show ?thesis by (simp add: same_outcome_Inl)
          next
            fix ra rb j
            assume b: "begin_block (PyDict []) Class_dict r1 n1 l (length (grp_indent p)) i = Inr (ra, j)"
              "begin_block (PyDict []) Class_dict r2 n2 l (length (grp_indent p)) i = Inr (rb, j)"
              and f: "forget_lines ra = forget_lines rb"
            from send_same_lines [OF pc sl, of n1 ?s n2] obtain h1 h2 where
              h: "gen_send g1' (n1, ?s) = Inr h1" "gen_send g2' (n2, ?s) = Inr h2" "same_lines h1 h2"
                "gen_weight h1 = gen_weight g1' + line_weight ?s"
                "gen_weight h2 = gen_weight g2' + line_weight ?s"
              by blast
            from pushed_lighter_class [OF p, of _] 2 have "line_weight ?s < line_weight l" by simp
            with h(4,5) w have hw: "gen_weight h1 + gen_weight h2 < gen_weight g1 + gen_weight g2"
              by simp
            have "same_outcome
               (case parseYAML_loop h1 (j + 1) PyNone of
                  Inl e \<Rightarrow> Inl e | Inr (child, g3) \<Rightarrow> parseYAML_loop g3 j (dict_setitem ra ?k child))
               (case parseYAML_loop h2 (j + 1) PyNone of
                  Inl e \<Rightarrow> Inl e | Inr (child, g3) \<Rightarrow> parseYAML_loop g3 j (dict_setitem rb ?k child))"
              by (rule sim_child [OF IH hw h(3)]) (auto intro: dict_setitem_forget [OF f])
            with eq b h(1,2) show ?thesis by simp
          qed
        next
          case 3
          note eq = loop_data [OF nx1 False p ge 3, of r1] loop_data [OF nx2 False p ge 3, of r2]
          from data_line_forget [OF fr, of n1 l "lineContent_of p" n2]
          show ?thesis
          proof (elim disjE exE conjE)
            fix e1 e2
            assume "data_line r1 n1 l (lineContent_of p) = Inl e1"
              "data_line r2 n2 l (lineContent_of p) = Inl e2" "forget_error e1 = forget_error e2"
            with eq show ?thesis by (simp add: same_outcome_Inl)
          next
            fix ra rb
            assume d: "data_line r1 n1 l (lineContent_of p) = Inr ra"
              "data_line r2 n2 l (lineContent_of p) = Inr rb"
              and f: "forget_lines ra = forget_lines rb"
            from IH [OF w' sl f, of i] eq d show ?thesis by simp
          qed
        qed
      qed
    qed
  qed
qed


lemma simulation:
  assumes "same_lines g1 g2" and "forget_lines r1 = forget_lines r2"
  shows "same_outcome (parseYAML_loop g1 i r1) (parseYAML_loop g2 i r2)"
  using assms
proof (induction "gen_weight g1 + gen_weight g2" arbitrary: g1 g2 r1 r2 i rule: less_induct)
  case less
  note sl = less.prems(1) and fr = less.prems(2)
  have IH: "same_outcome (parseYAML_loop ga j ra) (parseYAML_loop gb j rb)"
    if "gen_weight ga + gen_weight gb < gen_weight g1 + gen_weight g2" "same_lines ga gb"
      "forget_lines ra = forget_lines rb" for ga gb ra rb j
    using less.hyps [OF that] .
  from sl have q: "map snd (queue g1) = map snd (queue g2)"
    and pe: "filter (\<lambda>l. \<not> ignorable l) (map snd (pending g1))
             = filter (\<lambda>l. \<not> ignorable l) (map snd (pending g2))"
    by (simp_all add: same_lines_def)
  have skip1: ?case if p1: "pending g1 = (n, l) # rest" and ig: "ignorable l" and q1: "queue g1 = []"
    for n l rest
  proof -
    from next_from_input [OF q1 p1] obtain h where
      h: "gen_next g1 = (Some (n, l), h)" "queue h = []" "pending h = rest" by blast
    from gen_next_weight [OF h(1)] have "gen_weight h + gen_weight g2 < gen_weight g1 + gen_weight g2"
      by (simp add: line_weight_def)
    moreover have "same_lines h g2" using q pe h(2,3) p1 ig q1 by (simp add: same_lines_def)
    ultimately have "same_outcome (parseYAML_loop h i r1) (parseYAML_loop g2 i r2)"
      using fr by (rule IH)
    with loop_skip [OF h(1) ig] show ?thesis by simp
  qed
  have skip2: ?case if p2: "pending g2 = (n, l) # rest" and ig: "ignorable l" and q2: "queue g2 = []"
    for n l rest
  proof -
    from next_from_input [OF q2 p2] obtain h where
      h: "gen_next g2 = (Some (n, l), h)" "queue h = []" "pending h = rest" by blast
    from gen_next_weight [OF h(1)] have "gen_weight g1 + gen_weight h < gen_weight g1 + gen_weight g2"
      by (simp add: line_weight_def)
    moreover have "same_lines g1 h" using q pe h(2,3) p2 ig q2 by (simp add: same_lines_def)
    ultimately have "same_outcome (parseYAML_loop g1 i r1) (parseYAML_loop h i r2)"
      using fr by (rule IH)
    with loop_skip [OF h(1) ig] show ?thesis by simp
  qed
  show ?case
  proof (cases "queue g1")
    case (Cons x1 q1)
    with q obtain x2 q2 where q2: "queue g2 = x2 # q2" "snd x2 = snd x1" "map snd q2 = map snd q1"
      by (cases "queue g2") auto
    from next_from_queue [OF Cons] obtain h1 where
      h1: "gen_next g1 = (Some x1, h1)" "queue h1 = q1" "pending h1 = pending g1" by blast
    from next_from_queue [OF q2(1)] obtain h2 where
      h2: "gen_next g2 = (Some x2, h2)" "queue h2 = q2" "pending h2 = pending g2" by blast
    have s: "same_lines h1 h2" using h1 h2 q2(3) pe by (simp add: same_lines_def)
    have n1: "gen_next g1 = (Some (fst x1, snd x1), h1)" using h1(1) by simp
    have n2: "gen_next g2 = (Some (fst x2, snd x1), h2)" using h2(1) q2(2) [symmetric] by simp
    show ?thesis by (rule sim_step [OF n1 n2 s fr]) (rule IH, assumption+)
  next
    case Nil
    with q have q2: "queue g2 = []" by simp
    show ?thesis
    proof (cases "pending g1")
      case p1: Nil
      show ?thesis
      proof (cases "pending g2")
        case p2: Nil
        from Nil p1 have "fst (gen_next g1) = None" by (simp add: next_stops_iff)
        then obtain h1 where h1: "gen_next g1 = (None, h1)" by (cases "gen_next g1") auto
        from q2 p2 have "fst (gen_next g2) = None" by (simp add: next_stops_iff)
        then obtain h2 where h2: "gen_next g2 = (None, h2)" by (cases "gen_next g2") auto
        have "same_lines h1 h2"
          using next_None_empty [OF h1] next_None_empty [OF h2] by (simp add: same_lines_def)
        with loop_stop [OF h1] loop_stop [OF h2] fr show ?thesis
          by (simp add: same_outcome_Inr)
      next
        case p2: (Cons nl rest)
        obtain n l where nl: "nl = (n, l)" by (cases nl)
        from pe p1 p2 nl have "ignorable l" by (auto split: if_splits)
        with p2 nl q2 show ?thesis by (auto intro: skip2)
      qed
    next
      case p1: (Cons nl1 rest1)
      obtain n1 l1 where nl1: "nl1 = (n1, l1)" by (cases nl1)
      show ?thesis
      proof (cases "ignorable l1")
        case True
        with p1 nl1 Nil show ?thesis by (auto intro: skip1)
      next
        case ni1: False
        show ?thesis
        proof (cases "pending g2")
          case p2: Nil
          with pe p1 nl1 ni1 show ?thesis by simp
        next
          case p2: (Cons nl2 rest2)
          obtain n2 l2 where nl2: "nl2 = (n2, l2)" by (cases nl2)
          show ?thesis
          proof (cases "ignorable l2")
            case True
            with p2 nl2 q2 show ?thesis by (auto intro: skip2)
          next
            case ni2: False
            from pe p1 p2 nl1 nl2 ni1 ni2 have l: "l2 = l1"
              and r: "filter (\<lambda>l. \<not> ignorable l) (map snd rest1)
                      = filter (\<lambda>l. \<not> ignorable l) (map snd rest2)" by simp_all
            from next_from_input [OF Nil p1] nl1 obtain h1 where
              h1: "gen_next g1 = (Some (n1, l1), h1)" "queue h1 = []" "pending h1 = rest1" by auto
            from next_from_input [OF q2 p2] nl2 l obtain h2 where
              h2: "gen_next g2 = (Some (n2, l1), h2)" "queue h2 = []" "pending h2 = rest2" by auto
            have s: "same_lines h1 h2" using h1 h2 r by (simp add: same_lines_def)
            show ?thesis by (rule sim_step [OF h1(1) h2(1) s fr]) (rule IH, assumption+)
          qed
        qed
      qed
    qed
  qed
qed

lemma forget_result_eqI:
  assumes "same_outcome x y"
  shows "forget_result (case x of Inl e \<Rightarrow> Inl e | Inr (v, g) \<Rightarrow> Inr v)
         = forget_result (case y of Inl e \<Rightarrow> Inl e | Inr (v, g) \<Rightarrow> Inr v)"
  using assms by (cases rule: same_outcome_cases) (simp_all add: forget_result_def)

lemma parseYAML_forget:
  assumes "filter (\<lambda>l. \<not> ignorable l) ls1 = filter (\<lambda>l. \<not> ignorable l) ls2"
  shows "forget_result (parseYAML fs (Lines ls1)) = forget_result (parseYAML fs (Lines ls2))"
proof -
  have "same_lines (parseYAML_generator fs (Lines ls1)) (parseYAML_generator fs (Lines ls2))"
    using assms by (simp add: same_lines_def generator_start map_snd_enumerate)
  then have "same_outcome (parseYAML_loop (parseYAML_generator fs (Lines ls1)) 0 PyNone)
               (parseYAML_loop (parseYAML_generator fs (Lines ls2)) 0 PyNone)"
    by (rule simulation) simp
  from forget_result_eqI [OF this] show ?thesis
    by (simp add: parseYAML_def parseYAML_inner_def)
qed


lemma data_line_no_indent:
  assumes "yamlLineRegex l = Some p" and "line_class p = Class_yamlValue"
  shows "grp_indent p = []"
proof (cases "item_alt (dropWhile (\<lambda>x. x = SP) l)")
  case None
  with assms(1) show ?thesis
    by (auto simp: yamlLineRegex_def content_alt_def Let_def split: if_splits)
next
  case (Some mc)
  obtain m c where "mc = (m, c)" by (cases mc)
  with Some item_alt_content [of _ m c] assms(1) have "group_or (grp_itemMarker p) [] \<noteq> []"
    by (auto simp: yamlLineRegex_def group_or_def)
  with assms(2) show ?thesis by (simp add: line_class_def)
qed

lemma begin_block_Inr:
  assumes "begin_block f c r n l li i = Inr (r1, i1)"
  shows "(r = PyNone \<and> r1 = f) \<or> (r1 = r \<and> class_of r = c)"
  using assms by (auto simp: begin_block_def expectYAML_def isinstance_def split: if_splits)

lemma list_append_no_lines:
  assumes "forget_lines a = a" and "forget_lines c = c" 
  shows "forget_lines (list_append a c) = list_append a c"
  using assms by (cases a) auto

lemma dict_setitem_no_lines:
  assumes "forget_lines a = a" and "forget_lines c = c"
  shows "forget_lines (dict_setitem a k c) = dict_setitem a k c"
  using assms by (cases a) (auto simp: dict_update_forget)

lemma list_append_class: "class_of a = Class_list \<Longrightarrow> class_of (list_append a c) = Class_list"
  by (cases a) auto

lemma dict_setitem_class: "class_of a = Class_dict \<Longrightarrow> class_of (dict_setitem a k c) = Class_dict"
  by (cases a) auto

text \<open>
  A data line has indent 0, so it never reaches a nested block, and a list or a dict
  rejects it: no scalar is ever put into a list or a dict.
\<close>

lemma no_lines_inside:
  assumes "parseYAML_loop g i r = Inr (v, g')" and "forget_lines r = r"
    and "0 < i \<or> class_of r = Class_list \<or> class_of r = Class_dict"
  shows "forget_lines v = v"
  using assms
proof (induction "gen_weight g" arbitrary: g i r v g' rule: less_induct)
  case less
  note res = less.prems(1) and nr = less.prems(2) and st = less.prems(3)
  show ?case
  proof (cases rule: loop_round_cases [where g = g and i = i])
    case (stop g1)
    with loop_stop [OF stop, of i r] res nr show ?thesis by simp
  next
    case (skip n l g1)
    from gen_next_weight [OF skip(1)] have "gen_weight g1 < gen_weight g"
      by (simp add: line_weight_def)
    moreover from loop_skip [OF skip, of i r] res have "parseYAML_loop g1 i r = Inr (v, g')" by simp
    ultimately show ?thesis using nr st by (rule less.hyps)
  next
    case (unparseable n l g1)
    with loop_unparseable [OF unparseable, of i r] res show ?thesis by simp
  next
    case (outdent n l g1 p)
    with loop_outdent [OF outdent, of r] res nr show ?thesis by (auto split: sum.splits)
  next
    case (item n l g1 p)
    let ?s = "replicate (length (grp_indent p) + length (group_or (grp_itemMarker p) [])) SP
                @ lineContent_of p"
    from loop_item [OF item, of r] res obtain r1 i1 g2 c g3 where
      b: "begin_block (PyList []) Class_list r n l (length (grp_indent p)) i = Inr (r1, i1)"
      and s: "gen_send g1 (n, ?s) = Inr g2"
      and c: "parseYAML_loop g2 (i1 + 1) PyNone = Inr (c, g3)"
      and k: "parseYAML_loop g3 i1 (list_append r1 c) = Inr (v, g')"
      by (auto split: sum.splits prod.splits)
    from begin_block_Inr [OF b] nr have r1: "forget_lines r1 = r1" "class_of r1 = Class_list"
      by auto
    from pushed_lighter_class [OF item(3), of _] item(5) have "line_weight ?s < line_weight l"
      by simp
    with gen_send_weight [OF s] gen_next_weight [OF item(1)]
    have w2: "gen_weight g2 < gen_weight g" by simp
    with parseYAML_loop_lighter [OF c] have w3: "gen_weight g3 < gen_weight g" by simp
    have "forget_lines c = c" by (rule less.hyps [OF w2 c]) simp_all
    with r1 have "forget_lines (list_append r1 c) = list_append r1 c"
      "class_of (list_append r1 c) = Class_list"
      by (simp_all add: list_append_no_lines list_append_class)
    with less.hyps [OF w3 k] show ?thesis by simp
  next
    case (key n l g1 p)
    let ?s = "replicate (length (grp_indent p) + length (group_or (grp_key p) [])
                  + length (group_or (grp_keyExtra p) [])) SP @ lineContent_of p"
    let ?k = "group_or (grp_key p) []"
    from loop_key [OF key, of r] res obtain r1 i1 g2 c g3 where
      b: "begin_block (PyDict []) Class_dict r n l (length (grp_indent p)) i = Inr (r1, i1)"
      and s: "gen_send g1 (n, ?s) = Inr g2"
      and c: "parseYAML_loop g2 (i1 + 1) PyNone = Inr (c, g3)"
      and k: "parseYAML_loop g3 i1 (dict_setitem r1 ?k c) = Inr (v, g')"
      by (auto split: sum.splits prod.splits)
    from begin_block_Inr [OF b] nr have r1: "forget_lines r1 = r1" "class_of r1 = Class_dict"
      by auto
    from pushed_lighter_class [OF key(3), of _] key(5) have "line_weight ?s < line_weight l"
      by simp
    with gen_send_weight [OF s] gen_next_weight [OF key(1)]
    have w2: "gen_weight g2 < gen_weight g" by simp
    with parseYAML_loop_lighter [OF c] have w3: "gen_weight g3 < gen_weight g" by simp
    have "forget_lines c = c" by (rule less.hyps [OF w2 c]) simp_all
    with r1 have "forget_lines (dict_setitem r1 ?k c) = dict_setitem r1 ?k c"
      "class_of (dict_setitem r1 ?k c) = Class_dict"
      by (simp_all add: dict_setitem_no_lines dict_setitem_class)
    with less.hyps [OF w3 k] show ?thesis by simp
  next
    case (data n l g1 p)
    from data_line_no_indent [OF data(3,5)] data(4) have "i = 0" by simp
    with st have "class_of r = Class_list \<or> class_of r = Class_dict" by simp
    then have "\<exists>e. data_line r n l (lineContent_of p) = Inl e"
      by (auto simp: data_line_def expectYAML_def isinstance_def)
    with loop_data [OF data, of r] res show ?thesis by auto
  qed
qed

lemma next_lines:
  assumes "gen_next g = (x, g1)"
  shows "queue g @ pending g = (case x of None \<Rightarrow> [] | Some nl \<Rightarrow> nl # (queue g1 @ pending g1))"
proof (cases "queue g")
  case (Cons y q)
  from next_from_queue [OF Cons] assms Cons show ?thesis by auto
next
  case Nil
  show ?thesis
  proof (cases "pending g")
    case p: Nil
    with Nil have "fst (gen_next g) = None" by (simp add: next_stops_iff)
    with assms Nil p show ?thesis by simp
  next
    case p: (Cons y rest)
    from next_from_input [OF Nil p] assms Nil p show ?thesis by auto
  qed
qed

text \<open>A block that has a value returns a value of the same class.\<close>

lemma class_stays:
  assumes "parseYAML_loop g i r = Inr (v, g')" and "r \<noteq> PyNone"
  shows "class_of v = class_of r"
  using assms
proof (induction "gen_weight g" arbitrary: g i r rule: less_induct)
  case less
  note res = less.prems(1) and rn = less.prems(2)
  show ?case
  proof (cases rule: loop_round_cases [where g = g and i = i])
    case (stop g1)
    with loop_stop [OF stop, of i r] res show ?thesis by simp
  next
    case (skip n l g1)
    from gen_next_weight [OF skip(1)] have "gen_weight g1 < gen_weight g"
      by (simp add: line_weight_def)
    moreover from loop_skip [OF skip, of i r] res have "parseYAML_loop g1 i r = Inr (v, g')" by simp
    ultimately show ?thesis using rn by (rule less.hyps)
  next
    case (unparseable n l g1)
    with loop_unparseable [OF unparseable, of i r] res show ?thesis by simp
  next
    case (outdent n l g1 p)
    with loop_outdent [OF outdent, of r] res show ?thesis by (auto split: sum.splits)
  next
    case (item n l g1 p)
    let ?s = "replicate (length (grp_indent p) + length (group_or (grp_itemMarker p) [])) SP
                @ lineContent_of p"
    from loop_item [OF item, of r] res obtain r1 i1 g2 c g3 where
      b: "begin_block (PyList []) Class_list r n l (length (grp_indent p)) i = Inr (r1, i1)"
      and s: "gen_send g1 (n, ?s) = Inr g2"
      and c: "parseYAML_loop g2 (i1 + 1) PyNone = Inr (c, g3)"
      and k: "parseYAML_loop g3 i1 (list_append r1 c) = Inr (v, g')"
      by (auto split: sum.splits prod.splits)
    from begin_block_Inr [OF b] rn have r1: "r1 = r" "class_of r = Class_list" by auto
    from pushed_lighter_class [OF item(3), of _] item(5) have "line_weight ?s < line_weight l"
      by simp
    with gen_send_weight [OF s] gen_next_weight [OF item(1)] parseYAML_loop_lighter [OF c]
    have w3: "gen_weight g3 < gen_weight g" by simp
    from r1 have "list_append r1 c \<noteq> PyNone" "class_of (list_append r1 c) = Class_list"
      by (cases r; simp)+
    with less.hyps [OF w3 k] r1 show ?thesis by simp
  next
    case (key n l g1 p)
    let ?s = "replicate (length (grp_indent p) + length (group_or (grp_key p) [])
                  + length (group_or (grp_keyExtra p) [])) SP @ lineContent_of p"
    let ?k = "group_or (grp_key p) []"
    from loop_key [OF key, of r] res obtain r1 i1 g2 c g3 where
      b: "begin_block (PyDict []) Class_dict r n l (length (grp_indent p)) i = Inr (r1, i1)"
      and s: "gen_send g1 (n, ?s) = Inr g2"
      and c: "parseYAML_loop g2 (i1 + 1) PyNone = Inr (c, g3)"
      and k: "parseYAML_loop g3 i1 (dict_setitem r1 ?k c) = Inr (v, g')"
      by (auto split: sum.splits prod.splits)
    from begin_block_Inr [OF b] rn have r1: "r1 = r" "class_of r = Class_dict" by auto
    from pushed_lighter_class [OF key(3), of _] key(5) have "line_weight ?s < line_weight l"
      by simp
    with gen_send_weight [OF s] gen_next_weight [OF key(1)] parseYAML_loop_lighter [OF c]
    have w3: "gen_weight g3 < gen_weight g" by simp
    from r1 have "dict_setitem r1 ?k c \<noteq> PyNone" "class_of (dict_setitem r1 ?k c) = Class_dict"
      by (cases r; simp)+
    with less.hyps [OF w3 k] r1 show ?thesis by simp
  next
    case (data n l g1 p)
    from gen_next_weight [OF data(1)] have w: "gen_weight g1 < gen_weight g"
      by (simp add: line_weight_def)
    from loop_data [OF data, of r] res obtain r1 where
      d: "data_line r n l (lineContent_of p) = Inr r1" and k: "parseYAML_loop g1 i r1 = Inr (v, g')"
      by (auto split: sum.splits)
    from d rn have "r1 \<noteq> PyNone" "class_of r1 = class_of r"
      by (cases r; auto simp: data_line_def expectYAML_def isinstance_def split: if_splits)+
    with less.hyps [OF w k] show ?thesis by simp
  qed
qed

lemma top_result:
  assumes "parseYAML_loop g 0 PyNone = Inr (v, g')"
  shows "class_of v = Class_yamlValue \<or> forget_lines v = v"
  using assms
proof (induction "gen_weight g" arbitrary: g rule: less_induct)
  case less
  note res = less.prems(1)
  show ?case
  proof (cases rule: loop_round_cases [where g = g and i = 0])
    case (stop g1)
    with loop_stop [OF stop, of 0 PyNone] res show ?thesis by auto
  next
    case (skip n l g1)
    from gen_next_weight [OF skip(1)] have "gen_weight g1 < gen_weight g"
      by (simp add: line_weight_def)
    moreover from loop_skip [OF skip, of 0 PyNone] res
    have "parseYAML_loop g1 0 PyNone = Inr (v, g')" by simp
    ultimately show ?thesis by (rule less.hyps)
  next
    case (unparseable n l g1)
    with loop_unparseable [OF unparseable, of 0 PyNone] res show ?thesis by simp
  next
    case (outdent n l g1 p)
    then show ?thesis by simp
  next
    case (item n l g1 p)
    from loop_item [OF item, of PyNone] res obtain g2 c g3 where
      c: "parseYAML_loop g2 (length (grp_indent p) + 1) PyNone = Inr (c, g3)"
      and k: "parseYAML_loop g3 (length (grp_indent p)) (list_append (PyList []) c) = Inr (v, g')"
      by (auto simp: begin_block_def split: sum.splits prod.splits)
    have "forget_lines c = c" by (rule no_lines_inside [OF c]) simp_all
    then have "forget_lines v = v" by (intro no_lines_inside [OF k]) simp_all
    then show ?thesis ..
  next
    case (key n l g1 p)
    from loop_key [OF key, of PyNone] res obtain g2 c g3 where
      c: "parseYAML_loop g2 (length (grp_indent p) + 1) PyNone = Inr (c, g3)"
      and k: "parseYAML_loop g3 (length (grp_indent p))
                (dict_setitem (PyDict []) (group_or (grp_key p) []) c) = Inr (v, g')"
      by (auto simp: begin_block_def split: sum.splits prod.splits)
    have "forget_lines c = c" by (rule no_lines_inside [OF c]) simp_all
    then have "forget_lines v = v" by (intro no_lines_inside [OF k]) simp_all
    then show ?thesis ..
  next
    case (data n l g1 p)
    obtain r1 where d: "data_line PyNone n l (lineContent_of p) = Inr r1"
      "class_of r1 = Class_yamlValue"
      by (cases "multiline_marker (strip (lineContent_of p))") (auto simp: data_line_def)
    with loop_data [OF data, of PyNone] res have "parseYAML_loop g1 0 r1 = Inr (v, g')" by simp
    from class_stays [OF this] d(2) have "class_of v = Class_yamlValue"
      by (cases r1) auto
    then show ?thesis ..
  qed
qed


lemma parseYAML_top_result:
  assumes "parseYAML fs src = Inr v" and "class_of v \<noteq> Class_yamlValue"
  shows "forget_lines v = v"
proof -
  from assms(1) obtain g' where
    "parseYAML_loop (parseYAML_generator fs src) 0 PyNone = Inr (v, g')"
    by (auto simp: parseYAML_def parseYAML_inner_def split: sum.splits)
  from top_result [OF this] assms(2) show ?thesis by simp
qed

text \<open>When the parse returns a scalar, no line it was given makes an entry.\<close>

lemma scalar_only_data:
  assumes "parseYAML_loop g 0 r = Inr (v, g')" and "class_of v = Class_yamlValue"
    and "r = PyNone \<or> class_of r = Class_yamlValue"
  shows "\<forall>nl \<in> set (queue g @ pending g). \<not> entry_line (snd nl)"
  using assms
proof (induction "gen_weight g" arbitrary: g r rule: less_induct)
  case less
  note res = less.prems(1) and cv = less.prems(2) and cr = less.prems(3)
  show ?case
  proof (cases rule: loop_round_cases [where g = g and i = 0])
    case (stop g1)
    from next_lines [OF stop] show ?thesis by simp
  next
    case (skip n l g1)
    from gen_next_weight [OF skip(1)] have "gen_weight g1 < gen_weight g"
      by (simp add: line_weight_def)
    moreover from loop_skip [OF skip, of 0 r] res have "parseYAML_loop g1 0 r = Inr (v, g')" by simp
    ultimately have "\<forall>nl \<in> set (queue g1 @ pending g1). \<not> entry_line (snd nl)"
      using cv cr by (rule less.hyps)
    with next_lines [OF skip(1)] skip(2) show ?thesis by (simp add: entry_line_def)
  next
    case (unparseable n l g1)
    with loop_unparseable [OF unparseable, of 0 r] res show ?thesis by simp
  next
    case (outdent n l g1 p)
    then show ?thesis by simp
  next
    case (item n l g1 p)
    from loop_item [OF item, of r] res obtain r1 i1 g2 c g3 where
      b: "begin_block (PyList []) Class_list r n l (length (grp_indent p)) 0 = Inr (r1, i1)"
      and k: "parseYAML_loop g3 i1 (list_append r1 c) = Inr (v, g')"
      by (auto split: sum.splits prod.splits)
    from begin_block_Inr [OF b] cr have "r1 = PyList []" by auto
    with class_stays [OF k] cv show ?thesis by simp
  next
    case (key n l g1 p)
    from loop_key [OF key, of r] res obtain r1 i1 g2 c g3 where
      b: "begin_block (PyDict []) Class_dict r n l (length (grp_indent p)) 0 = Inr (r1, i1)"
      and k: "parseYAML_loop g3 i1 (dict_setitem r1 (group_or (grp_key p) []) c) = Inr (v, g')"
      by (auto split: sum.splits prod.splits)
    from begin_block_Inr [OF b] cr have "r1 = PyDict []" by auto
    with class_stays [OF k] cv show ?thesis by simp
  next
    case (data n l g1 p)
    from gen_next_weight [OF data(1)] have w: "gen_weight g1 < gen_weight g"
      by (simp add: line_weight_def)
    from loop_data [OF data, of r] res obtain r1 where
      d: "data_line r n l (lineContent_of p) = Inr r1" and k: "parseYAML_loop g1 0 r1 = Inr (v, g')"
      by (auto split: sum.splits)
    from d have "class_of r1 = Class_yamlValue"
      by (cases r) (auto simp: data_line_def expectYAML_def isinstance_def split: if_splits)
    with less.hyps [OF w k cv] have "\<forall>nl \<in> set (queue g1 @ pending g1). \<not> entry_line (snd nl)"
      by simp
    with next_lines [OF data(1)] data(2,3,5) show ?thesis by (simp add: entry_line_def)
  qed
qed

lemma parseYAML_scalar_no_entry:
  assumes "parseYAML fs (Lines ls) = Inr v" and "class_of v = Class_yamlValue"
  shows "\<forall>l \<in> set ls. \<not> entry_line l"
proof -
  from assms(1) obtain g' where
    "parseYAML_loop (parseYAML_generator fs (Lines ls)) 0 PyNone = Inr (v, g')"
    by (auto simp: parseYAML_def parseYAML_inner_def split: sum.splits)
  from scalar_only_data [OF this assms(2)]
  have "\<forall>nl \<in> set (enumerate 1 ls). \<not> entry_line (snd nl)"
    by (simp add: generator_start)
  then have "\<forall>l \<in> snd ` set (enumerate 1 ls). \<not> entry_line l" by blast
  moreover have "snd ` set (enumerate 1 ls) = set ls"
    using map_snd_enumerate [of 1 ls] by (metis set_map)
  ultimately show ?thesis by (simp only:)
qed

section \<open>Empty lines and comments\<close>

text \<open>
  C7. Inserting empty lines and comment lines (lines that are empty after \<^verbatim>\<open>strip\<close>, or
  whose first character after white space is a hash) at any place of the input does not
  change what the parse gives. A returned list, dict or \<^verbatim>\<open>None\<close> is the very same value,
  and so is every value returned for an input that has an item line or a key line, which
  is every input with entries to insert between. In all cases the two results are the
  same up to line numbers: a scalar that makes up the whole result has the same text,
  which is the equality of \<^verbatim>\<open>yamlValue\<close> (that of \<^verbatim>\<open>str\<close>), and an exception has the same
  message apart from the number of the line.
\<close>

theorem dropped_lines_transparent:
  assumes "\<forall>l \<in> set ins. ignorable l"
  shows "forget_result (parseYAML fs (Lines (pre @ ins @ post)))
           = forget_result (parseYAML fs (Lines (pre @ post)))
         \<and> (\<forall>v. parseYAML fs (Lines (pre @ post)) = Inr v \<and> class_of v \<noteq> Class_yamlValue
               \<longrightarrow> parseYAML fs (Lines (pre @ ins @ post)) = Inr v)
         \<and> (\<forall>v. parseYAML fs (Lines (pre @ post)) = Inr v \<and> (\<exists>l \<in> set (pre @ post). entry_line l)
               \<longrightarrow> parseYAML fs (Lines (pre @ ins @ post)) = Inr v)"
proof -
  have exact: "parseYAML fs (Lines (pre @ ins @ post)) = Inr v"
    if v: "parseYAML fs (Lines (pre @ post)) = Inr v" "class_of v \<noteq> Class_yamlValue" for v
  proof -
    from assms have "filter (\<lambda>l. \<not> ignorable l) ins = []" by (simp add: filter_empty_conv)
    then have "filter (\<lambda>l. \<not> ignorable l) (pre @ ins @ post)
               = filter (\<lambda>l. \<not> ignorable l) (pre @ post)" by simp
    then have eq: "forget_result (parseYAML fs (Lines (pre @ ins @ post)))
             = forget_result (parseYAML fs (Lines (pre @ post)))"
      by (rule parseYAML_forget)
    from parseYAML_top_result [OF v] have fv: "forget_lines v = v" .
    with eq v(1) obtain v' where v': "parseYAML fs (Lines (pre @ ins @ post)) = Inr v'"
      "forget_lines v' = v"
      by (cases "parseYAML fs (Lines (pre @ ins @ post))") (auto simp: forget_result_def)
    from v'(2) fv have "forget_lines v' = forget_lines v" by simp
    from forget_lines_class(1) [OF this] v(2) have "class_of v' \<noteq> Class_yamlValue" by simp
    from parseYAML_top_result [OF v'(1) this] v'(2) have "v' = v" by simp
    with v'(1) show ?thesis by simp
  qed
  show ?thesis
  proof (intro conjI allI impI)
    from assms have "filter (\<lambda>l. \<not> ignorable l) ins = []" by (simp add: filter_empty_conv)
    then have "filter (\<lambda>l. \<not> ignorable l) (pre @ ins @ post)
               = filter (\<lambda>l. \<not> ignorable l) (pre @ post)" by simp
    then show "forget_result (parseYAML fs (Lines (pre @ ins @ post)))
             = forget_result (parseYAML fs (Lines (pre @ post)))"
      by (rule parseYAML_forget)
  next
    fix v
    assume "parseYAML fs (Lines (pre @ post)) = Inr v \<and> class_of v \<noteq> Class_yamlValue"
    then show "parseYAML fs (Lines (pre @ ins @ post)) = Inr v" using exact by blast
  next
    fix v
    assume a: "parseYAML fs (Lines (pre @ post)) = Inr v \<and> (\<exists>l \<in> set (pre @ post). entry_line l)"
    with parseYAML_scalar_no_entry [of fs "pre @ post" v]
    have "class_of v \<noteq> Class_yamlValue" by blast
    with a show "parseYAML fs (Lines (pre @ ins @ post)) = Inr v" using exact by blast
  qed
qed

theorem dropped_lines_transparent_witness:
  "ignorable ''\<newline>'' \<and> ignorable ''  # c\<newline>''
   \<and> parseYAML no_files (Lines ([''a:\<newline>''] @ [''b:\<newline>'', ''  - \<newline>'']))
     = Inr (PyDict [(''a'', PyNone), (''b'', PyList [PyNone])])
   \<and> class_of (PyDict [(''a'', PyNone), (''b'', PyList [PyNone])]) \<noteq> Class_yamlValue
   \<and> entry_line ''b:\<newline>''
   \<and> parseYAML no_files (Lines ([''a:\<newline>''] @ [''\<newline>'', ''  # c\<newline>''] @ [''b:\<newline>'', ''  - \<newline>'']))
     = Inr (PyDict [(''a'', PyNone), (''b'', PyList [PyNone])])
   \<and> forget_result (parseYAML no_files (Lines ([''\<newline>''] @ [''\<newline>'', ''  # c\<newline>''] @ [''foo\<newline>''])))
     = forget_result (parseYAML no_files (Lines ([''\<newline>''] @ [''foo\<newline>''])))"
proof -
  have 1: "\<forall>l \<in> set [''\<newline>'', ''  # c\<newline>'']. ignorable l" by code_simp
  have 2: "parseYAML no_files (Lines ([''a:\<newline>''] @ [''b:\<newline>'', ''  - \<newline>'']))
     = Inr (PyDict [(''a'', PyNone), (''b'', PyList [PyNone])])" by code_simp
  have 3: "entry_line ''b:\<newline>''" by code_simp
  from dropped_lines_transparent [OF 1, of no_files "[''a:\<newline>'']" "[''b:\<newline>'', ''  - \<newline>'']"]
    dropped_lines_transparent [OF 1, of no_files "[''\<newline>'']" "[''foo\<newline>'']"] 1 2 3
  show ?thesis by simp
qed

end
